theory Spec2Isabelle
  imports Complex_Main
begin

section \<open>JavaScript values\<close>

text \<open>
  The executor is TypeScript, but \<open>validateInputs\<close> tests its fields at run time
  (\<open>typeof\<close>, \<open>Array.isArray\<close>, truthiness), so the configuration fields are
  dynamically typed values. A number is an IEEE double: \<open>NaN\<close>, the two infinities, or a
  finite value, kept as the rational it denotes (comparison of doubles is exact).
\<close>

datatype jsnum = NaN | PosInf | NegInf | Finite rat

text \<open>\<open>a >= b\<close> on numbers: false as soon as one side is \<open>NaN\<close>.\<close>

fun num_ge :: "jsnum \<Rightarrow> jsnum \<Rightarrow> bool" where
  "num_ge NaN b = False"
| "num_ge a NaN = False"
| "num_ge PosInf b = True"
| "num_ge a NegInf = True"
| "num_ge NegInf b = False"
| "num_ge (Finite x) PosInf = False"
| "num_ge (Finite x) (Finite y) = (y \<le> x)"

text \<open>
  A value carries the elements when it is an array (\<open>'a\<close>) and the function when it is
  callable (\<open>'f\<close>).
\<close>

datatype ('a, 'f) jsval =
    JUndefined
  | JNull
  | JBool bool
  | JNum jsnum
  | JStr string
  | JArray "'a list"
  | JFunction 'f
  | JObject

fun typeof :: "('a, 'f) jsval \<Rightarrow> string" where
  "typeof JUndefined = ''undefined''"
| "typeof JNull = ''object''"
| "typeof (JBool b) = ''boolean''"
| "typeof (JNum n) = ''number''"
| "typeof (JStr s) = ''string''"
| "typeof (JArray xs) = ''object''"
| "typeof (JFunction f) = ''function''"
| "typeof JObject = ''object''"

fun isArray :: "('a, 'f) jsval \<Rightarrow> bool" where
  "isArray (JArray xs) = True"
| "isArray v = False"

text \<open>
  Truthiness, as \<open>this.errorHandler && ...\<close> and \<open>if (this.errorHandler)\<close> test it:
  \<open>undefined\<close>, \<open>null\<close>, \<open>false\<close>, \<open>0\<close>, \<open>NaN\<close> and the empty string are falsy.
\<close>

fun truthy :: "('a, 'f) jsval \<Rightarrow> bool" where
  "truthy JUndefined = False"
| "truthy JNull = False"
| "truthy (JBool b) = b"
| "truthy (JNum NaN) = False"
| "truthy (JNum (Finite x)) = (x \<noteq> 0)"
| "truthy (JNum n) = True"
| "truthy (JStr s) = (s \<noteq> [])"
| "truthy v = True"

section \<open>Promises, handlers and the executor\<close>

text \<open>How a promise settles: fulfilled with a value or rejected with an error.\<close>

datatype ('r, 'e) settlement = Fulfils 'r | Rejects 'e

text \<open>
  \<open>ProcessHandler<T, R> = (item: T, index: number) => R | Promise<R>\<close>. The executor calls it
  inside the async \<open>createTaskFor\<close>, so a returned value, a synchronous throw and a returned
  promise all reach the executor as the settlement of one promise; when it settles is the
  scheduler's choice (an event of the run below).
\<close>

type_synonym ('t, 'r, 'e) ProcessHandler = "'t \<Rightarrow> nat \<Rightarrow> ('r, 'e) settlement"

text \<open>
  The error handler \<open>(error, item) => void | Promise<void>\<close> is called inside the
  \<open>catch\<close> callback: it returns, throws, or returns a promise that settles later.
\<close>

datatype 'e handling = Returns | Throws 'e | ReturnsPromise "(unit, 'e) settlement"

type_synonym ('t, 'e) ErrorHandler = "'e \<Rightarrow> 't \<Rightarrow> 'e handling"

text \<open>
  Modelled from the spec: \<open>PromisePoolError\<close> (\<open>./promise-pool-error\<close> is not among the
  sources). The spec's PoolError "wraps a raised failure together with the original item
  that caused it"; \<open>createFrom(error, item)\<close> builds it.
\<close>

datatype ('e, 't) PromisePoolError = PoolError (pe_raw: 'e) (pe_item: 't)

definition createFrom :: "'e \<Rightarrow> 't \<Rightarrow> ('e, 't) PromisePoolError" where
  "createFrom error x = PoolError error x"

text \<open>The object \<open>{ results: this.results, errors: this.errors }\<close> that \<open>drained\<close> returns.\<close>

datatype ('t, 'r, 'e) ReturnValue =
  ReturnValue (rv_results: "'r list") (rv_errors: "('e, 't) PromisePoolError list")

text \<open>
  The class \<open>PromisePoolExecutor<T, R>\<close>. A task (a promise in \<open>this.tasks\<close>) is named by
  the index of the entry it was created for: \<open>process\<close> creates one task per entry.
\<close>

record ('t, 'r, 'e) executor =
  items :: "('t, unit) jsval"
  concurrency :: "(unit, unit) jsval"
  tasks :: "nat list"
  results :: "'r list"
  handler :: "(unit, ('t, 'r, 'e) ProcessHandler) jsval"
  errorHandler :: "(unit, ('t, 'e) ErrorHandler) jsval"
  errors :: "('e, 't) PromisePoolError list"

text \<open>
  The constructor. The default handler \<open>() => {}\<close> fulfils with \<open>undefined\<close>; \<open>u\<close> is the
  value of the result type that stands for it.
\<close>

definition new_executor :: "'r \<Rightarrow> ('t, 'r, 'e) executor" where
  "new_executor u =
     \<lparr> items = JArray [],
       concurrency = JNum (Finite 10),
       tasks = [],
       results = [],
       handler = JFunction (\<lambda>x index. Fulfils u),
       errorHandler = JUndefined,
       errors = [] \<rparr>"

subsection \<open>Configuration setters\<close>

definition withConcurrency ::
  "(unit, unit) jsval \<Rightarrow> ('t, 'r, 'e) executor \<Rightarrow> ('t, 'r, 'e) executor" where
  "withConcurrency c ex = ex\<lparr>concurrency := c\<rparr>"

definition for_items ::
  "('t, unit) jsval \<Rightarrow> ('t, 'r, 'e) executor \<Rightarrow> ('t, 'r, 'e) executor" where
  "for_items xs ex = ex\<lparr>items := xs\<rparr>"

definition withHandler ::
  "(unit, ('t, 'r, 'e) ProcessHandler) jsval \<Rightarrow> ('t, 'r, 'e) executor \<Rightarrow> ('t, 'r, 'e) executor" where
  "withHandler action ex = ex\<lparr>handler := action\<rparr>"

definition handleError ::
  "(unit, ('t, 'e) ErrorHandler) jsval \<Rightarrow> ('t, 'r, 'e) executor \<Rightarrow> ('t, 'r, 'e) executor" where
  "handleError h ex = ex\<lparr>errorHandler := h\<rparr>"

subsection \<open>Introspection\<close>

definition activeCount :: "('t, 'r, 'e) executor \<Rightarrow> nat" where
  "activeCount ex = length (tasks ex)"

text \<open>
  \<open>this.activeCount() >= this.concurrency\<close>. The comparison is modelled for a number on the
  right, which is what \<open>validateInputs\<close> establishes before \<open>process\<close> runs; for any other
  value JavaScript first coerces it to a number, which is outside this model
  (\<open>None\<close>).
\<close>

definition hasReachedConcurrencyLimit :: "('t, 'r, 'e) executor \<Rightarrow> bool option" where
  "hasReachedConcurrencyLimit ex =
     (case concurrency ex of
        JNum c \<Rightarrow> Some (num_ge (Finite (of_nat (activeCount ex))) c)
      | _ \<Rightarrow> None)"

subsection \<open>Validation\<close>

text \<open>
  The four errors of \<open>validateInputs\<close>, in the order of its checks. The first and the last
  are thrown as \<open>Error\<close>, the other two as \<open>TypeError\<close>; the message texts are left out.
\<close>

datatype config_error =
    HandlerNotFunction
  | ConcurrencyInvalid
  | ItemsNotArray
  | ErrorHandlerNotFunction

datatype error_class = Error | TypeError

fun class_of :: "config_error \<Rightarrow> error_class" where
  "class_of HandlerNotFunction = Error"
| "class_of ConcurrencyInvalid = TypeError"
| "class_of ItemsNotArray = TypeError"
| "class_of ErrorHandlerNotFunction = Error"

text \<open>\<open>typeof this.concurrency === 'number' && this.concurrency >= 1\<close>\<close>

fun number_one_or_up :: "('a, 'f) jsval \<Rightarrow> bool" where
  "number_one_or_up (JNum c) = num_ge c (Finite 1)"
| "number_one_or_up v = False"

definition validateInputs :: "('t, 'r, 'e) executor \<Rightarrow> config_error + ('t, 'r, 'e) executor" where
  "validateInputs ex =
     (if typeof (handler ex) \<noteq> ''function'' then Inl HandlerNotFunction
      else if \<not> (typeof (concurrency ex) = ''number'' \<and> number_one_or_up (concurrency ex))
        then Inl ConcurrencyInvalid
      else if \<not> isArray (items ex) then Inl ItemsNotArray
      else if truthy (errorHandler ex) \<and> typeof (errorHandler ex) \<noteq> ''function''
        then Inl ErrorHandlerNotFunction
      else Inr ex)"

section \<open>A run of the pool\<close>

text \<open>
  \<open>start\<close> is an async function on one thread: it runs until its next \<open>await\<close>, and the
  callbacks of the tasks run, one at a time, while it is suspended. A run is therefore a
  state and the events that the JavaScript job queue delivers to it:
  \<^item> \<open>HandlerSettles i\<close>: the promise of \<open>createTaskFor\<close> for entry \<open>i\<close> has settled and
    its \<open>then\<close> or \<open>catch\<close> callback runs;
  \<^item> \<open>TaskSettles i\<close>: the task promise \<open>i\<close> (what \<open>.then(...).catch(...)\<close> returned)
    settles after its callback has run: one job later on the \<open>then\<close> path, and when the
    promise returned by the error handler settles on the \<open>catch\<close> path;
  \<^item> \<open>Resume\<close>: the awaited \<open>Promise.race\<close> or \<open>Promise.all\<close> has settled and
    \<open>process\<close> continues after its \<open>await\<close>.
  Every sequence of enabled events is a run. Which of them the job queue produces depends
  on when the promises of the handlers settle; a property proved of all sequences holds
  of those.
\<close>

datatype event = HandlerSettles nat | TaskSettles nat | Resume

datatype 'e pstate = Pending | Fulfilled | Rejected 'e

text \<open>What \<open>start()\<close> rejects with: a validation error, or an error that escaped the run.\<close>

datatype 'e rejection = ConfigError config_error | Escaped 'e

text \<open>
  Where \<open>start\<close> is. \<open>AwaitSlot ms p index x rest\<close>: suspended in
  \<open>await this.processingSlot()\<close> on \<open>Promise.race\<close> of the tasks \<open>ms\<close>, in state \<open>p\<close>,
  before \<open>startProcessing(x, index)\<close>, with the entries \<open>rest\<close> still to iterate.
  \<open>AwaitDrain ms p\<close>: suspended in \<open>drainActiveTasks\<close> on \<open>Promise.all\<close>, \<open>ms\<close> the tasks it
  still waits for. \<open>Resolved\<close> and \<open>RejectedWith\<close>: the promise of \<open>start()\<close> has settled.
  \<open>OutsideModel\<close>: \<open>process\<close> met a field that \<open>validateInputs\<close> would have refused.
  \<open>Running\<close>: not suspended yet (the state \<open>process\<close> starts from).
\<close>

datatype ('t, 'r, 'e) control =
    Running
  | AwaitSlot "nat list" "'e pstate" nat 't "(nat \<times> 't) list"
  | AwaitDrain "nat list" "'e pstate"
  | Resolved "('t, 'r, 'e) ReturnValue"
  | RejectedWith "'e rejection"
  | OutsideModel

text \<open>
  \<open>pool\<close> is \<open>this\<close>. \<open>reactions\<close> holds, for each task whose callback has not run, the
  item its closure captured and the settlement of its handler promise; \<open>settling\<close> holds the
  task promises whose callback has run and that settle later. \<open>handlerCalls\<close> and
  \<open>errorHandlerCalls\<close> record the calls of the two user functions with their arguments,
  in order (history only: nothing reads them).
\<close>

record ('t, 'r, 'e) run =
  pool :: "('t, 'r, 'e) executor"
  control :: "('t, 'r, 'e) control"
  reactions :: "(nat \<times> 't \<times> ('r, 'e) settlement) list"
  settling :: "(nat \<times> (unit, 'e) settlement) list"
  handlerCalls :: "('t \<times> nat) list"
  errorHandlerCalls :: "('e \<times> 't) list"

subsection \<open>Array operations\<close>

text \<open>\<open>this.items.entries()\<close>: the pairs of index and item.\<close>

definition entries :: "'t list \<Rightarrow> (nat \<times> 't) list" where
  "entries xs = zip [0..<length xs] xs"

text \<open>\<open>indexOf\<close>: the first position of the task, \<open>None\<close> for \<open>-1\<close>.\<close>

fun indexOf :: "nat list \<Rightarrow> nat \<Rightarrow> nat option" where
  "indexOf [] t = None"
| "indexOf (x # xs) t = (if x = t then Some 0 else map_option Suc (indexOf xs t))"

text \<open>
  \<open>this.tasks.splice(this.tasks.indexOf(task), 1)\<close>: removes the element at that position;
  \<open>splice(-1, 1)\<close> removes the last element.
\<close>

definition splice_task :: "nat \<Rightarrow> nat list \<Rightarrow> nat list" where
  "splice_task t ts =
     (case indexOf ts t of
        Some k \<Rightarrow> take k ts @ drop (Suc k) ts
      | None \<Rightarrow> butlast ts)"

subsection \<open>Promise.race and Promise.all\<close>

definition settled_as :: "(unit, 'e) settlement \<Rightarrow> 'e pstate" where
  "settled_as s = (case s of Fulfils u \<Rightarrow> Fulfilled | Rejects e \<Rightarrow> Rejected e)"

text \<open>\<open>Promise.race\<close> settles as its first member to settle does.\<close>

fun race_react :: "nat \<Rightarrow> (unit, 'e) settlement \<Rightarrow> nat list \<Rightarrow> 'e pstate \<Rightarrow> 'e pstate" where
  "race_react t s ms Pending = (if t \<in> set ms then settled_as s else Pending)"
| "race_react t s ms p = p"

text \<open>
  \<open>Promise.all\<close> rejects with the first rejection among its members and fulfils when every
  member has fulfilled; over the empty array it is fulfilled from the start.
\<close>

definition all_of :: "nat list \<Rightarrow> nat list \<times> 'e pstate" where
  "all_of ms = (ms, if ms = [] then Fulfilled else Pending)"

fun all_react ::
  "nat \<Rightarrow> (unit, 'e) settlement \<Rightarrow> nat list \<Rightarrow> 'e pstate \<Rightarrow> nat list \<times> 'e pstate" where
  "all_react t (Rejects e) ms Pending = (if t \<in> set ms then (ms, Rejected e) else (ms, Pending))"
| "all_react t (Fulfils u) ms Pending =
     (if t \<in> set ms then all_of (removeAll t ms) else (ms, Pending))"
| "all_react t s ms p = (ms, p)"

text \<open>The task promise \<open>t\<close> settles: the promise that \<open>start\<close> awaits reacts.\<close>

fun react ::
  "nat \<Rightarrow> (unit, 'e) settlement \<Rightarrow> ('t, 'r, 'e) control \<Rightarrow> ('t, 'r, 'e) control" where
  "react t s (AwaitSlot ms p index x rest) = AwaitSlot ms (race_react t s ms p) index x rest"
| "react t s (AwaitDrain ms p) = (case all_react t s ms p of (ms', p') \<Rightarrow> AwaitDrain ms' p')"
| "react t s c = c"

definition settle :: "nat \<Rightarrow> (unit, 'e) settlement \<Rightarrow> ('t, 'r, 'e) run \<Rightarrow> ('t, 'r, 'e) run" where
  "settle t s st = st\<lparr>control := react t s (control st)\<rparr>"

subsection \<open>startProcessing and its callbacks\<close>

text \<open>
  \<open>createTaskFor(item, index)\<close> calls \<open>this.handler(item, index)\<close> at once and returns the
  promise of its outcome; \<open>None\<close> when the handler is not callable.
\<close>

definition createTaskFor ::
  "'t \<Rightarrow> nat \<Rightarrow> ('t, 'r, 'e) executor \<Rightarrow> ('r, 'e) settlement option" where
  "createTaskFor x index ex =
     (case handler ex of JFunction h \<Rightarrow> Some (h x index) | _ \<Rightarrow> None)"

text \<open>The \<open>then\<close> callback: push the result, splice the task.\<close>

definition on_fulfilled :: "nat \<Rightarrow> 'r \<Rightarrow> ('t, 'r, 'e) run \<Rightarrow> ('t, 'r, 'e) run" where
  "on_fulfilled task result st =
     st\<lparr> pool := (pool st)\<lparr> results := results (pool st) @ [result],
                            tasks := splice_task task (tasks (pool st)) \<rparr>,
         settling := settling st @ [(task, Fulfils ())] \<rparr>"

text \<open>
  The \<open>catch\<close> callback: splice the task; with a truthy error handler return its call,
  otherwise push a \<open>PromisePoolError\<close>. The task promise settles with the callback, unless
  the error handler returned a promise.
\<close>

definition on_rejected :: "nat \<Rightarrow> 'e \<Rightarrow> 't \<Rightarrow> ('t, 'r, 'e) run \<Rightarrow> ('t, 'r, 'e) run" where
  "on_rejected task error x st =
     (let st1 = st\<lparr> pool := (pool st)\<lparr> tasks := splice_task task (tasks (pool st)) \<rparr> \<rparr> in
      if truthy (errorHandler (pool st1)) then
        (case errorHandler (pool st1) of
           JFunction eh \<Rightarrow>
             (let st2 = st1\<lparr> errorHandlerCalls := errorHandlerCalls st1 @ [(error, x)] \<rparr> in
              case eh error x of
                Returns \<Rightarrow> settle task (Fulfils ()) st2
              | Throws e \<Rightarrow> settle task (Rejects e) st2
              | ReturnsPromise s \<Rightarrow> st2\<lparr> settling := settling st2 @ [(task, s)] \<rparr>)
         | _ \<Rightarrow> st1\<lparr> control := OutsideModel \<rparr>)
      else
        settle task (Fulfils ())
          (st1\<lparr> pool := (pool st1)\<lparr> errors := errors (pool st1) @ [createFrom error x] \<rparr> \<rparr>))"

text \<open>
  \<open>startProcessing(item, index)\<close>: create the task, attach the two callbacks, push the task.
\<close>

definition startProcessing :: "'t \<Rightarrow> nat \<Rightarrow> ('t, 'r, 'e) run \<Rightarrow> ('t, 'r, 'e) run" where
  "startProcessing x index st =
     (case createTaskFor x index (pool st) of
        None \<Rightarrow> st\<lparr> control := OutsideModel \<rparr>
      | Some p \<Rightarrow>
          st\<lparr> handlerCalls := handlerCalls st @ [(x, index)],
              reactions := reactions st @ [(index, x, p)],
              pool := (pool st)\<lparr> tasks := tasks (pool st) @ [index] \<rparr> \<rparr>)"

subsection \<open>process, up to its next await\<close>

text \<open>\<open>drained\<close>: \<open>await Promise.all(this.tasks)\<close>.\<close>

definition drained :: "('t, 'r, 'e) run \<Rightarrow> ('t, 'r, 'e) run" where
  "drained st = st\<lparr> control := (case all_of (tasks (pool st)) of (ms, p) \<Rightarrow> AwaitDrain ms p) \<rparr>"

text \<open>
  The \<open>for\<close> loop of \<open>process\<close> over the entries left: at the limit, suspend on
  \<open>Promise.race(this.tasks)\<close>; otherwise start the entry and go on.
\<close>

fun admit :: "(nat \<times> 't) list \<Rightarrow> ('t, 'r, 'e) run \<Rightarrow> ('t, 'r, 'e) run" where
  "admit [] st = drained st"
| "admit ((index, x) # rest) st =
     (case hasReachedConcurrencyLimit (pool st) of
        None \<Rightarrow> st\<lparr> control := OutsideModel \<rparr>
      | Some True \<Rightarrow> st\<lparr> control := AwaitSlot (tasks (pool st)) Pending index x rest \<rparr>
      | Some False \<Rightarrow> admit rest (startProcessing x index st))"

text \<open>The continuation of \<open>process\<close> after its \<open>await\<close>; \<open>None\<close> while the promise is pending.\<close>

fun continue :: "('t, 'r, 'e) control \<Rightarrow> ('t, 'r, 'e) run \<Rightarrow> ('t, 'r, 'e) run option" where
  "continue (AwaitSlot ms Fulfilled index x rest) st =
     Some (admit rest (startProcessing x index st))"
| "continue (AwaitSlot ms (Rejected e) index x rest) st =
     Some (st\<lparr> control := RejectedWith (Escaped e) \<rparr>)"
| "continue (AwaitDrain ms Fulfilled) st =
     Some (st\<lparr> control := Resolved (ReturnValue (results (pool st)) (errors (pool st))) \<rparr>)"
| "continue (AwaitDrain ms (Rejected e)) st =
     Some (st\<lparr> control := RejectedWith (Escaped e) \<rparr>)"
| "continue c st = None"

definition process :: "('t, 'r, 'e) executor \<Rightarrow> ('t, 'r, 'e) run" where
  "process ex =
     (let st0 = \<lparr> pool = ex, control = Running, reactions = [], settling = [],
                  handlerCalls = [], errorHandlerCalls = [] \<rparr> in
      case items ex of
        JArray xs \<Rightarrow> admit (entries xs) st0
      | _ \<Rightarrow> st0\<lparr> control := OutsideModel \<rparr>)"

text \<open>\<open>start\<close>: \<open>return await this.validateInputs().process()\<close>, up to the first await.\<close>

definition start :: "('t, 'r, 'e) executor \<Rightarrow> ('t, 'r, 'e) run" where
  "start ex =
     (case validateInputs ex of
        Inl err \<Rightarrow> \<lparr> pool = ex, control = RejectedWith (ConfigError err), reactions = [],
                     settling = [], handlerCalls = [], errorHandlerCalls = [] \<rparr>
      | Inr ex' \<Rightarrow> process ex')"

subsection \<open>Events\<close>

text \<open>Dropping the entry of a task from a list keyed by task.\<close>

definition without :: "nat \<Rightarrow> (nat \<times> 'a) list \<Rightarrow> (nat \<times> 'a) list" where
  "without t kvs = filter (\<lambda>kv. fst kv \<noteq> t) kvs"

text \<open>One event; \<open>None\<close> when it cannot happen in this state.\<close>

fun step :: "event \<Rightarrow> ('t, 'r, 'e) run \<Rightarrow> ('t, 'r, 'e) run option" where
  "step (HandlerSettles i) st =
     (case map_of (reactions st) i of
        None \<Rightarrow> None
      | Some (x, Fulfils result) \<Rightarrow>
          Some (on_fulfilled i result (st\<lparr> reactions := without i (reactions st) \<rparr>))
      | Some (x, Rejects error) \<Rightarrow>
          Some (on_rejected i error x (st\<lparr> reactions := without i (reactions st) \<rparr>)))"
| "step (TaskSettles i) st =
     (case map_of (settling st) i of
        None \<Rightarrow> None
      | Some s \<Rightarrow> Some (settle i s (st\<lparr> settling := without i (settling st) \<rparr>)))"
| "step Resume st = continue (control st) st"

text \<open>A sequence of events from a state.\<close>

fun exec :: "event list \<Rightarrow> ('t, 'r, 'e) run \<Rightarrow> ('t, 'r, 'e) run option" where
  "exec [] st = Some st"
| "exec (ev # evs) st = (case step ev st of None \<Rightarrow> None | Some st' \<Rightarrow> exec evs st')"

section \<open>Notions used to state the properties\<close>

text \<open>A number that is a positive integer.\<close>

definition positive_integer :: "jsnum \<Rightarrow> bool" where
  "positive_integer n = (case n of Finite q \<Rightarrow> 0 < q \<and> q = of_int \<lfloor>q\<rfloor> | _ \<Rightarrow> False)"

text \<open>The tasks whose callback has run, in the order of the events.\<close>

fun handled :: "event list \<Rightarrow> nat list" where
  "handled [] = []"
| "handled (HandlerSettles i # evs) = i # handled evs"
| "handled (ev # evs) = handled evs"

text \<open>
  The values of the handler calls that fulfil, and the errors with their items of those
  that reject, over a list of entry indices.
\<close>

definition successes :: "('t, 'r, 'e) ProcessHandler \<Rightarrow> 't list \<Rightarrow> nat list \<Rightarrow> 'r list" where
  "successes h xs ids =
     concat (map (\<lambda>i. case h (xs ! i) i of Fulfils r \<Rightarrow> [r] | Rejects e \<Rightarrow> []) ids)"

definition failures :: "('t, 'r, 'e) ProcessHandler \<Rightarrow> 't list \<Rightarrow> nat list \<Rightarrow> ('e \<times> 't) list" where
  "failures h xs ids =
     concat (map (\<lambda>i. case h (xs ! i) i of Fulfils r \<Rightarrow> [] | Rejects e \<Rightarrow> [(e, xs ! i)]) ids)"

text \<open>How many entries \<open>process\<close> has started.\<close>

definition admitted :: "('t, 'r, 'e) run \<Rightarrow> nat" where
  "admitted st = length (handlerCalls st)"

text \<open>The events that can happen in a state.\<close>

definition enabled :: "('t, 'r, 'e) run \<Rightarrow> event list" where
  "enabled st =
     map (\<lambda>r. HandlerSettles (fst r)) (reactions st) @
     map (\<lambda>r. TaskSettles (fst r)) (settling st) @
     (case continue (control st) st of None \<Rightarrow> [] | Some st' \<Rightarrow> [Resume])"

section \<open>Example pools\<close>

text \<open>
  A handler over strings that fails for the item \<open>b\<close> and otherwise returns its item, an
  error handler that throws, one that returns, and the pool
  \<open>new PromisePoolExecutor().withConcurrency(c).for(xs).withHandler(...).handleError(eh)\<close>.
\<close>

definition example_handler :: "(string, string, string) ProcessHandler" where
  "example_handler x index = (if x = ''b'' then Rejects ''boom'' else Fulfils x)"

definition throwing :: "(string, string) ErrorHandler" where
  "throwing error x = Throws (''rethrown '' @ error)"

definition quiet :: "(string, string) ErrorHandler" where
  "quiet error x = Returns"

definition example_pool ::
  "rat \<Rightarrow> string list \<Rightarrow> (unit, (string, string) ErrorHandler) jsval \<Rightarrow>
   (string, string, string) executor" where
  "example_pool c xs eh =
     handleError eh
       (withHandler (JFunction example_handler)
         (for_items (JArray xs)
           (withConcurrency (JNum (Finite c)) (new_executor []))))"

section \<open>Invariants of a run\<close>

text \<open>
  The data of a run started on a validated executor with handler \<open>h\<close>, concurrency \<open>c\<close> and
  items \<open>xs\<close>: the configuration is not touched, the handler has been called on a
  prefix of the entries, the tasks in \<open>this.tasks\<close> are those whose callback has not run,
  and a task that still has to settle is no longer in \<open>this.tasks\<close>.
\<close>

definition run_inv ::
  "('t, 'r, 'e) ProcessHandler \<Rightarrow> jsnum \<Rightarrow> 't list \<Rightarrow> (unit, ('t, 'e) ErrorHandler) jsval \<Rightarrow>
   ('t, 'r, 'e) run \<Rightarrow> bool" where
  "run_inv h c xs eh st \<longleftrightarrow>
     handler (pool st) = JFunction h \<and> concurrency (pool st) = JNum c \<and>
     items (pool st) = JArray xs \<and> errorHandler (pool st) = eh \<and>
     (truthy eh \<longrightarrow> (\<exists>f. eh = JFunction f)) \<and>
     num_ge c (Finite 1) \<and>
     admitted st \<le> length xs \<and>
     handlerCalls st = map (\<lambda>i. (xs ! i, i)) [0..<admitted st] \<and>
     map fst (reactions st) = tasks (pool st) \<and>
     (\<forall>r \<in> set (reactions st). fst (snd r) = xs ! fst r \<and> snd (snd r) = h (xs ! fst r) (fst r)) \<and>
     distinct (tasks (pool st)) \<and>
     (\<forall>i \<in> set (tasks (pool st)). i < admitted st) \<and>
     (\<forall>i \<in> fst ` set (settling st). i < admitted st \<and> i \<notin> set (tasks (pool st))) \<and>
     (\<forall>q. c = Finite q \<longrightarrow> of_nat (length (tasks (pool st))) < q + 1)"

text \<open>What holds at each point where \<open>start\<close> can be.\<close>

fun ctl_ok ::
  "jsnum \<Rightarrow> 't list \<Rightarrow> ('t, 'r, 'e) run \<Rightarrow> ('t, 'r, 'e) control \<Rightarrow> bool" where
  "ctl_ok c xs st (AwaitSlot ms p index x rest) =
     ((index, x) # rest = drop (admitted st) (entries xs) \<and>
      set (tasks (pool st)) \<subseteq> set ms \<and>
      (\<forall>q. c = Finite q \<longrightarrow> of_nat (length ms) < q + 1) \<and>
      (p = Fulfilled \<longrightarrow> (\<exists>t \<in> set ms. t \<notin> set (tasks (pool st)))) \<and>
      (p = Pending \<longrightarrow> ms \<noteq> [] \<and> set ms \<subseteq> set (tasks (pool st)) \<union> fst ` set (settling st)))"
| "ctl_ok c xs st (AwaitDrain ms p) =
     (admitted st = length xs \<and>
      set (tasks (pool st)) \<subseteq> set ms \<and>
      (p = Fulfilled \<longrightarrow> ms = []) \<and>
      (p = Pending \<longrightarrow> ms \<noteq> [] \<and> set ms \<subseteq> set (tasks (pool st)) \<union> fst ` set (settling st)))"
| "ctl_ok c xs st (Resolved rv) =
     (admitted st = length xs \<and> tasks (pool st) = [] \<and>
      rv = ReturnValue (results (pool st)) (errors (pool st)))"
| "ctl_ok c xs st (RejectedWith r) = (\<exists>e. r = Escaped e)"
| "ctl_ok c xs st Running = False"
| "ctl_ok c xs st OutsideModel = False"

text \<open>The collections against the events that have happened.\<close>

definition hist ::
  "('t, 'r, 'e) executor \<Rightarrow> ('t, 'r, 'e) ProcessHandler \<Rightarrow> 't list \<Rightarrow>
   event list \<Rightarrow> ('t, 'r, 'e) run \<Rightarrow> bool" where
  "hist ex h xs evs st \<longleftrightarrow>
     results (pool st) = results ex @ successes h xs (handled evs) \<and>
     errors (pool st) = errors ex @
       (if truthy (errorHandler ex) then []
        else map (\<lambda>(e, x). createFrom e x) (failures h xs (handled evs))) \<and>
     errorHandlerCalls st =
       (if truthy (errorHandler ex) then failures h xs (handled evs) else []) \<and>
     distinct (handled evs) \<and>
     set (handled evs) \<union> set (tasks (pool st)) = {0..<admitted st} \<and>
     set (handled evs) \<inter> set (tasks (pool st)) = {}"

text \<open>A control in which a rejection has been seen.\<close>

fun rejecting :: "('t, 'r, 'e) control \<Rightarrow> bool" where
  "rejecting (AwaitSlot ms (Rejected e) index x rest) = True"
| "rejecting (AwaitDrain ms (Rejected e)) = True"
| "rejecting (RejectedWith r) = True"
| "rejecting c = False"

text \<open>No task promise has rejected or will reject.\<close>

definition calm :: "('t, 'r, 'e) run \<Rightarrow> bool" where
  "calm st \<longleftrightarrow>
     \<not> rejecting (control st) \<and> (\<forall>kv \<in> set (settling st). snd kv = Fulfils ())"

text \<open>\<open>start\<close> is suspended on an await.\<close>

fun awaiting :: "('t, 'r, 'e) control \<Rightarrow> bool" where
  "awaiting (AwaitSlot ms p index x rest) = True"
| "awaiting (AwaitDrain ms p) = True"
| "awaiting c = False"

text \<open>
  A bound on the events still to come in a run over \<open>n\<close> items: every event makes it
  smaller.
\<close>

definition fuel :: "nat \<Rightarrow> ('t, 'r, 'e) run \<Rightarrow> nat" where
  "fuel n st =
     3 * (n - admitted st) + 2 * length (tasks (pool st)) + length (settling st) +
     (if awaiting (control st) then 1 else 0)"

text \<open>The promise that \<open>start\<close> awaits has been rejected with \<open>e\<close>.\<close>

fun doomed :: "'e \<Rightarrow> ('t, 'r, 'e) control \<Rightarrow> bool" where
  "doomed e (AwaitSlot ms (Rejected e') index x rest) = (e' = e)"
| "doomed e (AwaitDrain ms (Rejected e')) = (e' = e)"
| "doomed e c = False"

section \<open>The setters leave the other fields alone\<close>

text \<open>
  C10. Each setter returns the executor with its own field replaced: \<open>withConcurrency\<close>
  changes only \<open>concurrency\<close>, \<open>for\<close> only \<open>items\<close>, \<open>withHandler\<close> only \<open>handler\<close>,
  \<open>handleError\<close> only \<open>errorHandler\<close>; every other field, and in particular \<open>tasks\<close>,
  \<open>results\<close> and \<open>errors\<close>, is the one of the executor it was called on.
\<close>

theorem setters_change_only_their_field:
  "withConcurrency c ex = ex\<lparr>concurrency := c\<rparr> \<and>
   for_items xs ex = ex\<lparr>items := xs\<rparr> \<and>
   withHandler action ex = ex\<lparr>handler := action\<rparr> \<and>
   handleError eh ex = ex\<lparr>errorHandler := eh\<rparr> \<and>
   concurrency (withConcurrency c ex) = c \<and>
   items (withConcurrency c ex) = items ex \<and>
   handler (withConcurrency c ex) = handler ex \<and>
   errorHandler (withConcurrency c ex) = errorHandler ex \<and>
   tasks (withConcurrency c ex) = tasks ex \<and>
   results (withConcurrency c ex) = results ex \<and>
   errors (withConcurrency c ex) = errors ex \<and>
   items (for_items xs ex) = xs \<and>
   concurrency (for_items xs ex) = concurrency ex \<and>
   handler (for_items xs ex) = handler ex \<and>
   errorHandler (for_items xs ex) = errorHandler ex \<and>
   tasks (for_items xs ex) = tasks ex \<and>
   results (for_items xs ex) = results ex \<and>
   errors (for_items xs ex) = errors ex \<and>
   handler (withHandler action ex) = action \<and>
   items (withHandler action ex) = items ex \<and>
   concurrency (withHandler action ex) = concurrency ex \<and>
   errorHandler (withHandler action ex) = errorHandler ex \<and>
   tasks (withHandler action ex) = tasks ex \<and>
   results (withHandler action ex) = results ex \<and>
   errors (withHandler action ex) = errors ex \<and>
   errorHandler (handleError eh ex) = eh \<and>
   items (handleError eh ex) = items ex \<and>
   concurrency (handleError eh ex) = concurrency ex \<and>
   handler (handleError eh ex) = handler ex \<and>
   tasks (handleError eh ex) = tasks ex \<and>
   results (handleError eh ex) = results ex \<and>
   errors (handleError eh ex) = errors ex"
  by (simp add: withConcurrency_def for_items_def withHandler_def handleError_def)

section \<open>What validateInputs refuses\<close>

lemma typeof_function: "(typeof v = ''function'') = (\<exists>f. v = JFunction f)"
  by (cases v) simp_all

lemma typeof_number: "(typeof v = ''number'') = (\<exists>c. v = JNum c)"
  by (cases v) simp_all

lemma isArray_iff: "isArray v = (\<exists>xs. v = JArray xs)"
  by (cases v) simp_all

lemma number_one_or_up_iff: "number_one_or_up v = (\<exists>c. v = JNum c \<and> num_ge c (Finite 1))"
  by (cases v) simp_all

lemma validated_shape:
  assumes "validateInputs ex = Inr ex'"
  shows "ex' = ex \<and> (\<exists>h. handler ex = JFunction h) \<and>
         (\<exists>c. concurrency ex = JNum c \<and> num_ge c (Finite 1)) \<and>
         (\<exists>xs. items ex = JArray xs) \<and>
         (truthy (errorHandler ex) \<longrightarrow> (\<exists>eh. errorHandler ex = JFunction eh))"
  using assms
  by (auto simp: validateInputs_def typeof_function isArray_iff number_one_or_up_iff
      split: if_splits)

lemma exec_rejected_start:
  assumes "validateInputs ex = Inl err" and "exec evs (start ex) = Some st"
  shows "evs = [] \<and> st = start ex"
proof (cases evs)
  case Nil
  with assms show ?thesis by simp
next
  case (Cons ev evs')
  have "step ev (start ex) = None"
    using assms(1) by (cases ev) (simp_all add: start_def)
  with assms(2) Cons show ?thesis by simp
qed

section \<open>Steps of a run preserve the invariants\<close>

lemma indexOf_None: "(indexOf ts t = None) = (t \<notin> set ts)"
  by (induction ts) auto

lemma indexOf_Some: "indexOf ts t = Some k \<Longrightarrow> take k ts @ drop (Suc k) ts = remove1 t ts"
  by (induction ts arbitrary: k) (auto split: if_splits)

lemma splice_task_member:
  "distinct ts \<Longrightarrow> t \<in> set ts \<Longrightarrow> splice_task t ts = removeAll t ts"
  by (cases "indexOf ts t")
     (simp_all add: splice_task_def indexOf_None indexOf_Some distinct_remove1_removeAll)

lemma map_fst_without: "map fst (without t kvs) = removeAll t (map fst kvs)"
  by (induction kvs) (auto simp: without_def)

lemma set_without: "set (without t kvs) = {kv \<in> set kvs. fst kv \<noteq> t}"
  by (auto simp: without_def)

lemma length_entries: "length (entries xs) = length xs"
  by (simp add: entries_def)

lemma entries_nth: "k < length xs \<Longrightarrow> entries xs ! k = (k, xs ! k)"
  by (simp add: entries_def)

lemma drop_entries_Cons:
  assumes "(index, x) # rest = drop k (entries xs)"
  shows "k < length xs \<and> index = k \<and> x = xs ! k \<and> rest = drop (Suc k) (entries xs)"
proof -
  have k: "k < length xs"
  proof (rule ccontr)
    assume "\<not> k < length xs"
    then have "drop k (entries xs) = []" by (simp add: length_entries)
    with assms show False by simp
  qed
  then have "drop k (entries xs) = (k, xs ! k) # drop (Suc k) (entries xs)"
    by (metis Cons_nth_drop_Suc entries_nth length_entries)
  with assms k show ?thesis by simp
qed

lemma drop_entries_Nil:
  assumes "[] = drop k (entries xs)" and "k \<le> length xs"
  shows "k = length xs"
  using assms by (simp add: length_entries)

lemma startProcessing_fields:
  assumes "handler (pool st) = JFunction h"
  shows "pool (startProcessing x i st) = (pool st)\<lparr>tasks := tasks (pool st) @ [i]\<rparr>"
    and "control (startProcessing x i st) = control st"
    and "reactions (startProcessing x i st) = reactions st @ [(i, x, h x i)]"
    and "settling (startProcessing x i st) = settling st"
    and "handlerCalls (startProcessing x i st) = handlerCalls st @ [(x, i)]"
    and "errorHandlerCalls (startProcessing x i st) = errorHandlerCalls st"
  using assms by (simp_all add: startProcessing_def createTaskFor_def)

lemma startProcessing_inv:
  assumes run_inv: "run_inv h c xs eh st"
    and k: "admitted st < length xs"
    and room: "\<forall>q. c = Finite q \<longrightarrow> of_nat (length (tasks (pool st))) < q"
  shows "run_inv h c xs eh (startProcessing (xs ! admitted st) (admitted st) st)"
proof -
  have h: "handler (pool st) = JFunction h" using run_inv by (simp add: run_inv_def)
  note f = startProcessing_fields [OF h]
  have adm: "admitted (startProcessing (xs ! admitted st) (admitted st) st) = Suc (admitted st)"
    by (simp add: admitted_def f)
  show ?thesis
    unfolding run_inv_def adm
    using run_inv k room
    by (auto simp: run_inv_def f less_Suc_eq admitted_def)
qed


lemma limit_reached_nonempty:
  assumes "num_ge (Finite (of_nat n)) c" and "num_ge c (Finite 1)"
  shows "n \<noteq> 0"
  using assms by (cases c) auto

lemma limit_not_reached_room:
  assumes "\<not> num_ge (Finite (of_nat n)) c"
  shows "\<forall>q. c = Finite q \<longrightarrow> of_nat n < q"
  using assms by auto

lemma run_inv_control_update: "run_inv h c xs eh (st\<lparr>control := ctl\<rparr>) = run_inv h c xs eh st"
  by (simp add: run_inv_def admitted_def)

lemma admit_ok:
  assumes "run_inv h c xs eh st" and "es = drop (admitted st) (entries xs)"
  shows "run_inv h c xs eh (admit es st) \<and>
         ctl_ok c xs (admit es st) (control (admit es st)) \<and>
         admitted st \<le> admitted (admit es st) \<and>
         tasks (pool (admit es st)) = tasks (pool st) @ [admitted st..<admitted (admit es st)] \<and>
         results (pool (admit es st)) = results (pool st) \<and>
         errors (pool (admit es st)) = errors (pool st) \<and>
         errorHandlerCalls (admit es st) = errorHandlerCalls st \<and>
         settling (admit es st) = settling st"
  using assms
proof (induction es arbitrary: st)
  case Nil
  then have "admitted st = length xs"
    using drop_entries_Nil [of "admitted st" xs] by (simp add: run_inv_def)
  with Nil show ?case
    by (simp add: drained_def all_of_def run_inv_control_update admitted_def)
next
  case (Cons a es)
  let ?k = "admitted st"
  have d: "?k < length xs" "a = (?k, xs ! ?k)" "es = drop (Suc ?k) (entries xs)"
    using Cons.prems(2) drop_entries_Cons [of "fst a" "snd a" es ?k xs]
    by (simp_all add: prod_eq_iff)
  have conc: "concurrency (pool st) = JNum c" and one: "num_ge c (Finite 1)"
    and h: "handler (pool st) = JFunction h"
    using Cons.prems(1) by (simp_all add: run_inv_def)
  have lim: "hasReachedConcurrencyLimit (pool st) =
      Some (num_ge (Finite (of_nat (length (tasks (pool st))))) c)"
    by (simp add: hasReachedConcurrencyLimit_def conc activeCount_def)
  show ?case
  proof (cases "num_ge (Finite (of_nat (length (tasks (pool st))))) c")
    case True
    then have ne: "tasks (pool st) \<noteq> []"
      using limit_reached_nonempty [OF _ one] by fastforce
    have bound: "\<forall>q. c = Finite q \<longrightarrow> of_nat (length (tasks (pool st))) < q + 1"
      using Cons.prems(1) by (simp add: run_inv_def)
    have eq: "admit (a # es) st =
        st\<lparr>control := AwaitSlot (tasks (pool st)) Pending ?k (xs ! ?k) es\<rparr>"
      by (simp add: d(2) lim True)
    show ?thesis
      unfolding eq
      using Cons.prems ne bound d(2)
      by (simp add: run_inv_control_update admitted_def)
  next
    case False
    let ?st' = "startProcessing (xs ! ?k) ?k st"
    have eq: "admit (a # es) st = admit es ?st'"
      by (simp add: d(2) lim False)
    have run_inv': "run_inv h c xs eh ?st'"
      by (rule startProcessing_inv [OF Cons.prems(1) d(1) limit_not_reached_room [OF False]])
    note f = startProcessing_fields [OF h, of "xs ! ?k" ?k]
    have ad: "admitted ?st' = Suc ?k"
      by (simp add: admitted_def startProcessing_fields [OF h])
    have es: "es = drop (admitted ?st') (entries xs)" by (simp add: ad d(3))
    note IH = Cons.IH [OF run_inv' es]
    have "[?k..<admitted (admit es ?st')] = ?k # [Suc ?k..<admitted (admit es ?st')]"
      using IH ad by (simp add: upt_conv_Cons)
    with IH show ?thesis
      unfolding eq by (simp add: f ad)
  qed
qed


lemma ctl_ok_mono:
  assumes ok: "ctl_ok c xs st0 ctl"
    and sub: "set (tasks (pool st)) \<subseteq> set (tasks (pool st0))"
    and adm: "admitted st = admitted st0"
    and keep: "set (tasks (pool st0)) \<union> fst ` set (settling st0)
           \<subseteq> set (tasks (pool st)) \<union> fst ` set (settling st)"
    and ne: "tasks (pool st0) \<noteq> []"
  shows "ctl_ok c xs st ctl"
proof (cases ctl)
  case (AwaitSlot ms p index x rest)
  have a: "set (tasks (pool st)) \<subseteq> set ms"
    using ok sub AwaitSlot by auto
  have b: "p = Fulfilled \<longrightarrow> (\<exists>t \<in> set ms. t \<notin> set (tasks (pool st)))"
    using ok sub AwaitSlot by auto
  have "p = Pending \<longrightarrow> set ms \<subseteq> set (tasks (pool st0)) \<union> fst ` set (settling st0)"
    using ok AwaitSlot by simp
  then have d: "p = Pending \<longrightarrow> set ms \<subseteq> set (tasks (pool st)) \<union> fst ` set (settling st)"
    using keep by blast
  show ?thesis
    using ok a b d by (simp add: AwaitSlot adm)
next
  case (AwaitDrain ms p)
  have a: "set (tasks (pool st)) \<subseteq> set ms"
    using ok sub AwaitDrain by auto
  have "p = Pending \<longrightarrow> set ms \<subseteq> set (tasks (pool st0)) \<union> fst ` set (settling st0)"
    using ok AwaitDrain by simp
  then have d: "p = Pending \<longrightarrow> set ms \<subseteq> set (tasks (pool st)) \<union> fst ` set (settling st)"
    using keep by blast
  show ?thesis
    using ok a d by (simp add: AwaitDrain adm)
next
  case (Resolved rv)
  with ok ne show ?thesis by simp
next
  case (RejectedWith r)
  with ok show ?thesis by simp
next
  case Running
  with ok show ?thesis by simp
next
  case OutsideModel
  with ok show ?thesis by simp
qed

lemma react_ok:
  assumes ok: "ctl_ok c xs st0 ctl"
    and sub: "set (tasks (pool st)) \<subseteq> set (tasks (pool st0))"
    and gone: "t \<notin> set (tasks (pool st))"
    and adm: "admitted st = admitted st0"
    and keep: "set (tasks (pool st0)) \<union> fst ` set (settling st0)
           \<subseteq> insert t (set (tasks (pool st)) \<union> fst ` set (settling st))"
    and same: "tasks (pool st0) \<noteq> [] \<or>
         (results (pool st) = results (pool st0) \<and> errors (pool st) = errors (pool st0))"
  shows "ctl_ok c xs st (react t s ctl)"
proof (cases ctl)
  case (AwaitSlot ms p index x rest)
  have a: "set (tasks (pool st)) \<subseteq> set ms"
    using ok sub AwaitSlot by auto
  have e: "(index, x) # rest = drop (admitted st) (entries xs)"
    and bd: "\<forall>q. c = Finite q \<longrightarrow> of_nat (length ms) < q + 1"
    using ok AwaitSlot adm by simp_all
  show ?thesis
  proof (cases "p = Pending \<and> t \<in> set ms")
    case True
    then have r: "react t s ctl = AwaitSlot ms (settled_as s) index x rest"
      by (simp add: AwaitSlot)
    have "settled_as s \<noteq> Pending" by (cases s) (simp_all add: settled_as_def)
    moreover have "\<exists>t \<in> set ms. t \<notin> set (tasks (pool st))" using True gone by blast
    ultimately show ?thesis unfolding r using a e bd by simp
  next
    case False
    then have r: "react t s ctl = ctl"
      by (cases p) (auto simp: AwaitSlot)
    have b: "p = Fulfilled \<longrightarrow> (\<exists>t \<in> set ms. t \<notin> set (tasks (pool st)))"
      using ok sub AwaitSlot by auto
    have "p = Pending \<longrightarrow> set ms \<subseteq> set (tasks (pool st0)) \<union> fst ` set (settling st0)"
      using ok AwaitSlot by simp
    then have d: "p = Pending \<longrightarrow> set ms \<subseteq> set (tasks (pool st)) \<union> fst ` set (settling st)"
      using keep False by blast
    have n: "p = Pending \<longrightarrow> ms \<noteq> []" using ok AwaitSlot by simp
    show ?thesis unfolding r using a e bd b d n by (simp add: AwaitSlot)
  qed
next
  case (AwaitDrain ms p)
  have a: "set (tasks (pool st)) \<subseteq> set ms"
    using ok sub AwaitDrain by auto
  have e: "admitted st = length xs"
    using ok AwaitDrain adm by simp
  show ?thesis
  proof (cases "p = Pending \<and> t \<in> set ms")
    case True
    have m: "set ms \<subseteq> set (tasks (pool st0)) \<union> fst ` set (settling st0)"
      using ok AwaitDrain True by simp
    show ?thesis
    proof (cases s)
      case (Fulfils u)
      have r: "react t s ctl =
          AwaitDrain (removeAll t ms) (if removeAll t ms = [] then Fulfilled else Pending)"
        using True by (simp add: AwaitDrain Fulfils all_of_def)
      have a': "set (tasks (pool st)) \<subseteq> set (removeAll t ms)"
        using a gone by auto
      have "set (removeAll t ms) = set ms - {t}" by simp
      then have d': "set (removeAll t ms) \<subseteq> set (tasks (pool st)) \<union> fst ` set (settling st)"
        using m keep by blast
      show ?thesis unfolding r using a' d' e by simp
    next
      case (Rejects err)
      have r: "react t s ctl = AwaitDrain ms (Rejected err)"
        using True by (simp add: AwaitDrain Rejects)
      show ?thesis unfolding r using a e by simp
    qed
  next
    case False
    then have r: "react t s ctl = ctl"
      by (cases p; cases s) (auto simp: AwaitDrain)
    have "p = Pending \<longrightarrow> set ms \<subseteq> set (tasks (pool st0)) \<union> fst ` set (settling st0)"
      using ok AwaitDrain by simp
    then have d: "p = Pending \<longrightarrow> set ms \<subseteq> set (tasks (pool st)) \<union> fst ` set (settling st)"
      using keep False by blast
    have n: "p = Pending \<longrightarrow> ms \<noteq> []" and f: "p = Fulfilled \<longrightarrow> ms = []"
      using ok AwaitDrain by simp_all
    show ?thesis unfolding r using a e d n f by (simp add: AwaitDrain)
  qed
next
  case (Resolved rv)
  have "tasks (pool st0) = []" using ok Resolved by simp
  with same sub ok show ?thesis by (simp add: Resolved adm)
next
  case (RejectedWith r)
  with ok show ?thesis by simp
next
  case Running
  with ok show ?thesis by simp
next
  case OutsideModel
  with ok show ?thesis by simp
qed


lemma tasks_room:
  assumes "distinct ts" and "set ts \<subseteq> set ms" and "\<exists>t \<in> set ms. t \<notin> set ts"
    and "\<forall>q. c = Finite q \<longrightarrow> of_nat (length ms) < q + 1"
  shows "\<forall>q. c = Finite q \<longrightarrow> of_nat (length ts) < q"
proof -
  have "set ts \<subset> set ms" using assms(2,3) by blast
  then have "card (set ts) < card (set ms)" by (simp add: psubset_card_mono)
  also have "\<dots> \<le> length ms" by (rule card_length)
  finally have "Suc (length ts) \<le> length ms"
    using assms(1) by (simp add: distinct_card)
  then have "(of_nat (Suc (length ts)) :: rat) \<le> of_nat (length ms)"
    by (simp only: of_nat_le_iff)
  then have "(of_nat (length ts) :: rat) + 1 \<le> of_nat (length ms)"
    by simp
  with assms(4) show ?thesis by fastforce
qed

lemma continue_ok:
  assumes run_inv: "run_inv h c xs eh st" and ok: "ctl_ok c xs st (control st)"
    and st: "continue (control st) st = Some st'"
  shows "run_inv h c xs eh st' \<and> ctl_ok c xs st' (control st') \<and>
         admitted st \<le> admitted st' \<and>
         tasks (pool st') = tasks (pool st) @ [admitted st..<admitted st'] \<and>
         results (pool st') = results (pool st) \<and>
         errors (pool st') = errors (pool st) \<and>
         errorHandlerCalls st' = errorHandlerCalls st \<and>
         settling st' = settling st"
proof (cases "control st")
  case (AwaitSlot ms p index x rest)
  show ?thesis
  proof (cases p)
    case Pending
    with st AwaitSlot show ?thesis by simp
  next
    case Fulfilled
    let ?k = "admitted st"
    have e: "(index, x) # rest = drop ?k (entries xs)"
      and sub: "set (tasks (pool st)) \<subseteq> set ms"
      and bd: "\<forall>q. c = Finite q \<longrightarrow> of_nat (length ms) < q + 1"
      and free: "\<exists>t \<in> set ms. t \<notin> set (tasks (pool st))"
      using ok AwaitSlot Fulfilled by simp_all
    have d: "?k < length xs" "index = ?k" "x = xs ! ?k" "rest = drop (Suc ?k) (entries xs)"
      using drop_entries_Cons [OF e] by simp_all
    have h: "handler (pool st) = JFunction h" and dist: "distinct (tasks (pool st))"
      using run_inv by (simp_all add: run_inv_def)
    let ?st1 = "startProcessing (xs ! ?k) ?k st"
    have st': "st' = admit rest ?st1"
      using st AwaitSlot Fulfilled d by simp
    have wf1: "run_inv h c xs eh ?st1"
      by (rule startProcessing_inv [OF run_inv d(1) tasks_room [OF dist sub free bd]])
    have ad: "admitted ?st1 = Suc ?k"
      by (simp add: admitted_def startProcessing_fields [OF h])
    have r: "rest = drop (admitted ?st1) (entries xs)" by (simp add: ad d(4))
    note A = admit_ok [OF wf1 r]
    note f = startProcessing_fields [OF h, of "xs ! ?k" ?k]
    have "[?k..<admitted (admit rest ?st1)] = ?k # [Suc ?k..<admitted (admit rest ?st1)]"
      using A ad by (simp add: upt_conv_Cons)
    with A show ?thesis unfolding st' by (simp add: f ad)
  next
    case (Rejected e)
    then have st': "st' = st\<lparr>control := RejectedWith (Escaped e)\<rparr>"
      using st AwaitSlot by simp
    show ?thesis unfolding st' using run_inv by (simp add: run_inv_control_update admitted_def)
  qed
next
  case (AwaitDrain ms p)
  show ?thesis
  proof (cases p)
    case Pending
    with st AwaitDrain show ?thesis by simp
  next
    case Fulfilled
    then have st': "st' =
        st\<lparr>control := Resolved (ReturnValue (results (pool st)) (errors (pool st)))\<rparr>"
      using st AwaitDrain by simp
    have "tasks (pool st) = []" "admitted st = length xs"
      using ok AwaitDrain Fulfilled by auto
    then show ?thesis unfolding st' using run_inv by (simp add: run_inv_control_update admitted_def)
  next
    case (Rejected e)
    then have st': "st' = st\<lparr>control := RejectedWith (Escaped e)\<rparr>"
      using st AwaitDrain by simp
    show ?thesis unfolding st' using run_inv by (simp add: run_inv_control_update admitted_def)
  qed
next
  case (Resolved rv)
  with st show ?thesis by simp
next
  case (RejectedWith r)
  with st show ?thesis by simp
next
  case Running
  with st show ?thesis by simp
next
  case OutsideModel
  with st show ?thesis by simp
qed


lemma on_rejected_unhandled:
  assumes "\<not> truthy (errorHandler (pool st))"
  shows "on_rejected t e x st =
     settle t (Fulfils ())
       (st\<lparr>pool := (pool st)\<lparr>tasks := splice_task t (tasks (pool st)),
                               errors := errors (pool st) @ [createFrom e x]\<rparr>\<rparr>)"
  using assms by (simp add: on_rejected_def Let_def)

lemma on_rejected_handled:
  assumes "errorHandler (pool st) = JFunction f"
  shows "on_rejected t e x st =
     (case f e x of
        Returns \<Rightarrow> settle t (Fulfils ())
          (st\<lparr>pool := (pool st)\<lparr>tasks := splice_task t (tasks (pool st))\<rparr>,
               errorHandlerCalls := errorHandlerCalls st @ [(e, x)]\<rparr>)
      | Throws e' \<Rightarrow> settle t (Rejects e')
          (st\<lparr>pool := (pool st)\<lparr>tasks := splice_task t (tasks (pool st))\<rparr>,
               errorHandlerCalls := errorHandlerCalls st @ [(e, x)]\<rparr>)
      | ReturnsPromise s \<Rightarrow>
          st\<lparr>pool := (pool st)\<lparr>tasks := splice_task t (tasks (pool st))\<rparr>,
              errorHandlerCalls := errorHandlerCalls st @ [(e, x)],
              settling := settling st @ [(t, s)]\<rparr>)"
  using assms by (simp add: on_rejected_def Let_def split: handling.splits)

text \<open>What the callback of task \<open>i\<close> leaves of the data, whatever it does to the control.\<close>

lemma run_inv_after_callback:
  assumes run_inv: "run_inv h c xs eh st" and i: "i \<in> set (tasks (pool st))"
    and p: "tasks (pool st') = removeAll i (tasks (pool st))"
           "handler (pool st') = handler (pool st)"
           "concurrency (pool st') = concurrency (pool st)"
           "items (pool st') = items (pool st)"
           "errorHandler (pool st') = errorHandler (pool st)"
    and r: "reactions st' = without i (reactions st)"
    and s: "settling st' = settling st \<or> (\<exists>v. settling st' = settling st @ [(i, v)])"
    and c: "handlerCalls st' = handlerCalls st"
  shows "run_inv h c xs eh st'"
proof -
  have a: "admitted st' = admitted st" by (simp add: admitted_def c)
  have 1: "map fst (reactions st') = tasks (pool st')"
    using run_inv by (simp add: r p map_fst_without run_inv_def)
  have 2: "\<forall>r \<in> set (reactions st').
      fst (snd r) = xs ! fst r \<and> snd (snd r) = h (xs ! fst r) (fst r)"
    using run_inv by (simp add: r set_without run_inv_def)
  have 3: "distinct (tasks (pool st'))" "\<forall>j \<in> set (tasks (pool st')). j < admitted st"
    using run_inv by (simp_all add: p run_inv_def distinct_removeAll)
  have old: "\<forall>j \<in> fst ` set (settling st). j < admitted st \<and> j \<notin> set (tasks (pool st))"
    and iadm: "i < admitted st"
    using run_inv i by (simp_all add: run_inv_def)
  have 4: "\<forall>j \<in> fst ` set (settling st'). j < admitted st \<and> j \<notin> set (tasks (pool st'))"
  proof
    fix j assume j: "j \<in> fst ` set (settling st')"
    from s j have "j \<in> fst ` set (settling st) \<or> j = i" by auto
    then show "j < admitted st \<and> j \<notin> set (tasks (pool st'))"
      using old iadm by (auto simp: p)
  qed
  have "length (tasks (pool st')) \<le> length (tasks (pool st))"
    by (simp add: p)
  then have "(of_nat (length (tasks (pool st'))) :: rat) \<le> of_nat (length (tasks (pool st)))"
    by (simp only: of_nat_le_iff)
  moreover have "\<forall>q. c = Finite q \<longrightarrow> of_nat (length (tasks (pool st))) < q + 1"
    using run_inv by (simp add: run_inv_def)
  ultimately have 5: "\<forall>q. c = Finite q \<longrightarrow> of_nat (length (tasks (pool st'))) < q + 1"
    by fastforce
  show ?thesis
    unfolding run_inv_def a
    using run_inv 1 2 3 4 5 by (simp add: run_inv_def p c a)
qed


lemma callback_ok:
  assumes run_inv: "run_inv h c xs eh st" and ok: "ctl_ok c xs st (control st)"
    and i: "i \<in> set (tasks (pool st))"
    and p: "tasks (pool st') = removeAll i (tasks (pool st))"
           "handler (pool st') = handler (pool st)"
           "concurrency (pool st') = concurrency (pool st)"
           "items (pool st') = items (pool st)"
           "errorHandler (pool st') = errorHandler (pool st)"
    and r: "reactions st' = without i (reactions st)"
    and c: "handlerCalls st' = handlerCalls st"
    and s: "(control st' = control st \<and> (\<exists>v. settling st' = settling st @ [(i, v)])) \<or>
            (\<exists>v. control st' = react i v (control st) \<and> settling st' = settling st)"
  shows "run_inv h c xs eh st' \<and> ctl_ok c xs st' (control st')"
proof -
  have s': "settling st' = settling st \<or> (\<exists>v. settling st' = settling st @ [(i, v)])"
    using s by blast
  have w: "run_inv h c xs eh st'"
    by (rule run_inv_after_callback [OF run_inv i p r s' c])
  have a: "admitted st' = admitted st" by (simp add: admitted_def c)
  have sub: "set (tasks (pool st')) \<subseteq> set (tasks (pool st))" by (auto simp: p)
  have ne: "tasks (pool st) \<noteq> []" using i by auto
  from s show ?thesis
  proof
    assume A: "control st' = control st \<and> (\<exists>v. settling st' = settling st @ [(i, v)])"
    then have keep: "set (tasks (pool st)) \<union> fst ` set (settling st)
           \<subseteq> set (tasks (pool st')) \<union> fst ` set (settling st')"
      by (auto simp: p)
    have "ctl_ok c xs st' (control st)"
      by (rule ctl_ok_mono [OF ok sub a keep ne])
    with w A show ?thesis by simp
  next
    assume "\<exists>v. control st' = react i v (control st) \<and> settling st' = settling st"
    then obtain v where B: "control st' = react i v (control st)" "settling st' = settling st"
      by blast
    have gone: "i \<notin> set (tasks (pool st'))" by (simp add: p)
    have keep: "set (tasks (pool st)) \<union> fst ` set (settling st)
           \<subseteq> insert i (set (tasks (pool st')) \<union> fst ` set (settling st'))"
      by (auto simp: p B)
    have "ctl_ok c xs st' (react i v (control st))"
      by (rule react_ok [OF ok sub gone a keep]) (simp add: ne)
    with w B show ?thesis by simp
  qed
qed

lemma handler_settles_ok:
  assumes run_inv: "run_inv h c xs eh st" and ok: "ctl_ok c xs st (control st)"
    and st: "step (HandlerSettles i) st = Some st'"
  shows "run_inv h c xs eh st' \<and> ctl_ok c xs st' (control st') \<and>
         admitted st' = admitted st \<and>
         i \<in> set (tasks (pool st)) \<and>
         tasks (pool st') = removeAll i (tasks (pool st)) \<and>
         results (pool st') = results (pool st) @ successes h xs [i] \<and>
         errors (pool st') = errors (pool st) @
           (if truthy eh then [] else map (\<lambda>(e, x). createFrom e x) (failures h xs [i])) \<and>
         errorHandlerCalls st' = errorHandlerCalls st @
           (if truthy eh then failures h xs [i] else [])"
proof -
  obtain x s where m: "map_of (reactions st) i = Some (x, s)"
    using st by (auto split: option.splits)
  then have mem: "(i, x, s) \<in> set (reactions st)" by (rule map_of_SomeD)
  then have xs: "x = xs ! i" "s = h (xs ! i) i"
    using run_inv by (auto simp: run_inv_def)
  have mf: "map fst (reactions st) = tasks (pool st)" using run_inv by (simp add: run_inv_def)
  have "i \<in> fst ` set (reactions st)" using mem by force
  then have i: "i \<in> set (tasks (pool st))" unfolding mf [symmetric] by simp
  have "distinct (tasks (pool st))" using run_inv by (simp add: run_inv_def)
  then have sp: "splice_task i (tasks (pool st)) = removeAll i (tasks (pool st))"
    using i by (rule splice_task_member)
  have ehv: "errorHandler (pool st) = eh" "truthy eh \<longrightarrow> (\<exists>f. eh = JFunction f)"
    using run_inv by (simp_all add: run_inv_def)
  let ?b = "st\<lparr>reactions := without i (reactions st)\<rparr>"
  show ?thesis
  proof (cases s)
    case (Fulfils r)
    then have st': "st' = on_fulfilled i r ?b" using st m by simp
    have "run_inv h c xs eh st' \<and> ctl_ok c xs st' (control st')"
      by (rule callback_ok [OF run_inv ok i]) (auto simp: st' on_fulfilled_def sp)
    moreover have hx: "h (xs ! i) i = Fulfils r" using xs Fulfils by simp
    then have "successes h xs [i] = [r]" "failures h xs [i] = []"
      by (simp_all add: successes_def failures_def)
    ultimately show ?thesis
      using i by (simp add: st' on_fulfilled_def sp admitted_def)
  next
    case (Rejects e)
    then have st': "st' = on_rejected i e x ?b" using st m by simp
    have hx: "h (xs ! i) i = Rejects e" using xs Rejects by simp
    then have sf: "successes h xs [i] = []" "failures h xs [i] = [(e, x)]"
      using xs(1) by (simp_all add: successes_def failures_def)
    show ?thesis
    proof (cases "truthy eh")
      case False
      then have u: "\<not> truthy (errorHandler (pool ?b))" by (simp add: ehv)
      note st'' = st' [unfolded on_rejected_unhandled [OF u]]
      have "run_inv h c xs eh st' \<and> ctl_ok c xs st' (control st')"
        by (rule callback_ok [OF run_inv ok i]) (auto simp: st'' settle_def sp)
      then show ?thesis
        using i False by (simp add: st'' settle_def sp admitted_def sf)
    next
      case True
      then obtain f where f: "errorHandler (pool ?b) = JFunction f"
        using ehv by auto
      note st'' = st' [unfolded on_rejected_handled [OF f]]
      have "run_inv h c xs eh st' \<and> ctl_ok c xs st' (control st')"
        by (rule callback_ok [OF run_inv ok i])
           (auto simp: st'' settle_def sp split: handling.splits)
      then show ?thesis
        using i True
        by (simp add: st'' settle_def sp admitted_def sf split: handling.splits)
    qed
  qed
qed


lemma task_settles_ok:
  assumes run_inv: "run_inv h c xs eh st" and ok: "ctl_ok c xs st (control st)"
    and st: "step (TaskSettles i) st = Some st'"
  shows "run_inv h c xs eh st' \<and> ctl_ok c xs st' (control st') \<and>
         pool st' = pool st \<and> handlerCalls st' = handlerCalls st \<and>
         errorHandlerCalls st' = errorHandlerCalls st"
proof -
  obtain s where m: "map_of (settling st) i = Some s"
    using st by (auto split: option.splits)
  then have mem: "(i, s) \<in> set (settling st)" by (rule map_of_SomeD)
  then have "i \<in> fst ` set (settling st)" by force
  moreover have "\<forall>j \<in> fst ` set (settling st). j < admitted st \<and> j \<notin> set (tasks (pool st))"
    using run_inv unfolding run_inv_def by blast
  ultimately have gone: "i \<notin> set (tasks (pool st))" by blast
  have st': "st' = settle i s (st\<lparr>settling := without i (settling st)\<rparr>)"
    using st m by simp
  have f: "pool st' = pool st" "handlerCalls st' = handlerCalls st"
    "errorHandlerCalls st' = errorHandlerCalls st" "reactions st' = reactions st"
    "settling st' = without i (settling st)" "control st' = react i s (control st)"
    by (simp_all add: st' settle_def)
  have a: "admitted st' = admitted st" by (simp add: admitted_def f)
  have w: "run_inv h c xs eh st'"
    unfolding run_inv_def a using run_inv by (auto simp: run_inv_def f set_without)
  have keep: "set (tasks (pool st)) \<union> fst ` set (settling st)
        \<subseteq> insert i (set (tasks (pool st')) \<union> fst ` set (settling st'))"
    by (auto simp: f set_without)
  have "ctl_ok c xs st' (react i s (control st))"
    by (rule react_ok [OF ok _ _ a keep]) (simp_all add: f gone)
  with w f show ?thesis by simp
qed

lemma removeAll_filter: "removeAll i ts = filter (\<lambda>t. t \<noteq> i) ts"
  by (induction ts) auto

lemma handled_append: "handled (evs @ evs') = handled evs @ handled evs'"
  by (induction evs rule: handled.induct) simp_all

lemma successes_append: "successes h xs (a @ b) = successes h xs a @ successes h xs b"
  by (simp add: successes_def)

lemma failures_append: "failures h xs (a @ b) = failures h xs a @ failures h xs b"
  by (simp add: failures_def)

lemma successes_Nil: "successes h xs [] = []"
  by (simp add: successes_def)

lemma failures_Nil: "failures h xs [] = []"
  by (simp add: failures_def)

lemma step_ok:
  assumes run_inv: "run_inv h c xs eh st" and ok: "ctl_ok c xs st (control st)"
    and st: "step ev st = Some st'"
  shows "run_inv h c xs eh st' \<and> ctl_ok c xs st' (control st') \<and>
         admitted st \<le> admitted st' \<and>
         set (handled [ev]) \<subseteq> set (tasks (pool st)) \<and>
         tasks (pool st') =
           filter (\<lambda>t. t \<notin> set (handled [ev])) (tasks (pool st)) @ [admitted st..<admitted st'] \<and>
         results (pool st') = results (pool st) @ successes h xs (handled [ev]) \<and>
         errors (pool st') = errors (pool st) @
           (if truthy eh then [] else map (\<lambda>(e, x). createFrom e x) (failures h xs (handled [ev]))) \<and>
         errorHandlerCalls st' = errorHandlerCalls st @
           (if truthy eh then failures h xs (handled [ev]) else [])"
proof (cases ev)
  case (HandlerSettles i)
  note H = handler_settles_ok [OF run_inv ok st [unfolded HandlerSettles]]
  have "removeAll i (tasks (pool st)) = filter (\<lambda>t. t \<noteq> i) (tasks (pool st))"
    by (rule removeAll_filter)
  with H show ?thesis by (simp add: HandlerSettles)
next
  case (TaskSettles i)
  note T = task_settles_ok [OF run_inv ok st [unfolded TaskSettles]]
  then have "admitted st' = admitted st" by (simp add: admitted_def)
  with T show ?thesis by (simp add: TaskSettles successes_Nil failures_Nil)
next
  case Resume
  from st have "continue (control st) st = Some st'" by (simp add: Resume)
  note R = continue_ok [OF run_inv ok this]
  then show ?thesis by (simp add: Resume successes_Nil failures_Nil)
qed

lemma exec_snoc:
  "exec (evs @ [ev]) st = (case exec evs st of None \<Rightarrow> None | Some s \<Rightarrow> step ev s)"
  by (induction evs arbitrary: st) (auto split: option.splits)


lemma start_ok:
  assumes v: "validateInputs ex = Inr ex" and t: "tasks ex = []"
    and h: "handler ex = JFunction h" and c: "concurrency ex = JNum c"
    and xs: "items ex = JArray xs"
  shows "run_inv h c xs (errorHandler ex) (start ex) \<and>
         ctl_ok c xs (start ex) (control (start ex)) \<and>
         hist ex h xs [] (start ex)"
proof -
  let ?st0 = "\<lparr>pool = ex, control = Running, reactions = [], settling = [],
               handlerCalls = [], errorHandlerCalls = []\<rparr> :: ('a, 'b, 'c) run"
  have s: "start ex = admit (entries xs) ?st0"
    by (simp add: start_def v process_def xs)
  from validated_shape [OF v] c
  have one: "num_ge c (Finite 1)"
    and eh: "truthy (errorHandler ex) \<longrightarrow> (\<exists>f. errorHandler ex = JFunction f)"
    by auto
  have "\<forall>q. c = Finite q \<longrightarrow> (0::rat) < q + 1" using one by auto
  then have wf0: "run_inv h c xs (errorHandler ex) ?st0"
    using h c xs t one eh by (simp add: run_inv_def admitted_def)
  have e: "entries xs = drop (admitted ?st0) (entries xs)" by (simp add: admitted_def)
  note A = admit_ok [OF wf0 e]
  have a0: "admitted ?st0 = 0" by (simp add: admitted_def)
  have "hist ex h xs [] (start ex)"
    unfolding s hist_def using A
    by (simp add: a0 t successes_Nil failures_Nil)
  with A show ?thesis unfolding s by simp
qed

lemma hist_step:
  assumes hi: "hist ex h xs evs st" and eh: "errorHandler ex = eh"
    and le: "admitted st \<le> admitted st'"
    and sub: "set (handled [ev]) \<subseteq> set (tasks (pool st))"
    and ts: "tasks (pool st') =
           filter (\<lambda>t. t \<notin> set (handled [ev])) (tasks (pool st)) @ [admitted st..<admitted st']"
    and rs: "results (pool st') = results (pool st) @ successes h xs (handled [ev])"
    and es: "errors (pool st') = errors (pool st) @
           (if truthy eh then [] else map (\<lambda>(e, x). createFrom e x) (failures h xs (handled [ev])))"
    and cs: "errorHandlerCalls st' = errorHandlerCalls st @
           (if truthy eh then failures h xs (handled [ev]) else [])"
  shows "hist ex h xs (evs @ [ev]) st'"
proof -
  let ?H = "set (handled evs)" and ?N = "set (handled [ev])" and ?T = "set (tasks (pool st))"
  have u: "?H \<union> ?T = {0..<admitted st}" and d: "?H \<inter> ?T = {}"
    and dist: "distinct (handled evs)"
    using hi by (simp_all add: hist_def)
  have T': "set (tasks (pool st')) = (?T - ?N) \<union> {admitted st..<admitted st'}"
    by (auto simp: ts)
  have dn: "distinct (handled [ev])" by (cases ev) simp_all
  have 1: "distinct (handled (evs @ [ev]))"
    using dist dn d sub by (auto simp: handled_append)
  have ul: "{0..<admitted st} \<union> {admitted st..<admitted st'} = {0..<admitted st'}"
    using le by auto
  have "(?H \<union> ?N) \<union> ((?T - ?N) \<union> {admitted st..<admitted st'})
        = (?H \<union> ?T) \<union> {admitted st..<admitted st'}"
    using sub by blast
  then have 2: "set (handled (evs @ [ev])) \<union> set (tasks (pool st')) = {0..<admitted st'}"
    by (simp add: handled_append T' u ul)
  have "?H \<subseteq> {0..<admitted st}" "?T \<subseteq> {0..<admitted st}"
    using u by blast+
  then have "?H \<inter> {admitted st..<admitted st'} = {}" "?N \<inter> {admitted st..<admitted st'} = {}"
    using sub by auto
  then have "(?H \<union> ?N) \<inter> ((?T - ?N) \<union> {admitted st..<admitted st'}) = {}"
    using d by blast
  then have 3: "set (handled (evs @ [ev])) \<inter> set (tasks (pool st')) = {}"
    by (simp add: handled_append T')
  show ?thesis
    unfolding hist_def
    using hi 1 2 3
    by (simp add: hist_def eh rs es cs handled_append successes_append failures_append)
qed

lemma reach_ok:
  assumes v: "validateInputs ex = Inr ex" and t: "tasks ex = []"
    and h: "handler ex = JFunction h" and c: "concurrency ex = JNum c"
    and xs: "items ex = JArray xs"
    and ex: "exec evs (start ex) = Some st"
  shows "run_inv h c xs (errorHandler ex) st \<and> ctl_ok c xs st (control st) \<and> hist ex h xs evs st"
  using ex
proof (induction evs arbitrary: st rule: rev_induct)
  case Nil
  then show ?case using start_ok [OF v t h c xs] by simp
next
  case (snoc ev evs)
  from snoc.prems obtain s where s: "exec evs (start ex) = Some s" "step ev s = Some st"
    by (auto simp: exec_snoc split: option.splits)
  note IH = snoc.IH [OF s(1)]
  from IH have w: "run_inv h c xs (errorHandler ex) s" and k: "ctl_ok c xs s (control s)"
    and hi: "hist ex h xs evs s" by simp_all
  note S = step_ok [OF w k s(2)]
  have "hist ex h xs (evs @ [ev]) st"
    by (rule hist_step [OF hi refl]) (use S in simp_all)
  with S show ?case by simp
qed

section \<open>Evaluating example runs\<close>

lemmas run_eval =
  example_pool_def example_handler_def throwing_def quiet_def new_executor_def
  withConcurrency_def for_items_def withHandler_def handleError_def
  start_def validateInputs_def process_def entries_def upt_rec
  hasReachedConcurrencyLimit_def activeCount_def startProcessing_def createTaskFor_def
  on_fulfilled_def on_rejected_def settle_def splice_task_def without_def drained_def
  all_of_def settled_as_def createFrom_def

section \<open>Example runs\<close>

lemma run_swallowed:
  "\<exists>st. exec [HandlerSettles 0, TaskSettles 0, HandlerSettles 1, Resume,
              HandlerSettles 2, TaskSettles 2, Resume]
          (start (example_pool 2 [''a'', ''b'', ''c''] (JFunction throwing))) = Some st \<and>
        control st = Resolved (ReturnValue [''a'', ''c''] []) \<and>
        errorHandlerCalls st = [(''boom'', ''b'')] \<and>
        handlerCalls st = [(''a'', 0), (''b'', 1), (''c'', 2)] \<and>
        results (pool st) = [''a'', ''c''] \<and> errors (pool st) = [] \<and> tasks (pool st) = []"
  by (simp add: run_eval)

lemma run_out_of_order:
  "\<exists>st. exec [HandlerSettles 2, HandlerSettles 1, HandlerSettles 0, TaskSettles 2,
              TaskSettles 0, Resume]
          (start (example_pool 10 [''a'', ''b'', ''c''] JUndefined)) = Some st \<and>
        control st = Resolved (ReturnValue [''c'', ''a''] [PoolError ''boom'' ''b'']) \<and>
        handlerCalls st = [(''a'', 0), (''b'', 1), (''c'', 2)] \<and>
        results (pool st) = [''c'', ''a''] \<and> errors (pool st) = [PoolError ''boom'' ''b''] \<and>
        reactions st = [] \<and> settling st = []"
  by (simp add: run_eval)

lemma example_pool_fields:
  "tasks (example_pool c xs eh) = []" "results (example_pool c xs eh) = []"
  "errors (example_pool c xs eh) = []" "items (example_pool c xs eh) = JArray xs"
  "concurrency (example_pool c xs eh) = JNum (Finite c)"
  "handler (example_pool c xs eh) = JFunction example_handler"
  "errorHandler (example_pool c xs eh) = eh"
  by (simp_all add: run_eval)

lemma example_pool_valid:
  "1 \<le> c \<Longrightarrow> eh = JUndefined \<or> (\<exists>f. eh = JFunction f) \<Longrightarrow>
   validateInputs (example_pool c xs eh) = Inr (example_pool c xs eh)"
  by (auto simp: validateInputs_def example_pool_fields)

section \<open>The concurrency ceiling\<close>

text \<open>
  With the concurrency 1.5, which \<open>validateInputs\<close> accepts, \<open>start\<close> has two tasks
  active when it first suspends, and 1.5 is not at least 2.
\<close>

theorem fractional_ceiling_exceeded_counterexample:
  "validateInputs (example_pool (3/2) [''a'', ''b'', ''c''] JUndefined)
     = Inr (example_pool (3/2) [''a'', ''b'', ''c''] JUndefined) \<and>
   activeCount (pool (start (example_pool (3/2) [''a'', ''b'', ''c''] JUndefined))) = 2 \<and>
   \<not> num_ge (Finite (3/2))
       (Finite (of_nat (activeCount (pool (start (example_pool (3/2) [''a'', ''b'', ''c''] JUndefined))))))"
  by (simp add: run_eval)

text \<open>
  C1, amended. In every run started on a validated executor with no task in flight and a
  finite concurrency \<open>C\<close>, at every instant \<open>activeCount()\<close> is below \<open>C + 1\<close>; so it
  never exceeds \<open>C\<close> when \<open>C\<close> is an integer. The loop of \<open>process\<close> suspends whenever
  \<open>activeCount()\<close> is at or above \<open>C\<close>, and when it resumes after a fulfilled
  \<open>Promise.race\<close> a task has left \<open>this.tasks\<close>, so that starting the pending item, one
  task more, keeps the bound.
\<close>

theorem active_count_bounded:
  assumes "validateInputs ex = Inr ex" and "tasks ex = []"
    and "concurrency ex = JNum (Finite q)"
    and "exec evs (start ex) = Some st"
  shows "of_nat (activeCount (pool st)) < q + 1 \<and>
         (\<forall>n. q = of_nat n \<longrightarrow> activeCount (pool st) \<le> n) \<and>
         (\<forall>index x rest. q \<le> of_nat (activeCount (pool st)) \<longrightarrow>
            control (admit ((index, x) # rest) st)
              = AwaitSlot (tasks (pool st)) Pending index x rest) \<and>
         (\<forall>ms index x rest. control st = AwaitSlot ms Fulfilled index x rest \<longrightarrow>
            step Resume st = Some (admit rest (startProcessing x index st)) \<and>
            activeCount (pool (startProcessing x index st)) = Suc (activeCount (pool st)) \<and>
            of_nat (activeCount (pool st)) < q)"
proof -
  from validated_shape [OF assms(1)] obtain h xs
    where h: "handler ex = JFunction h" and xs: "items ex = JArray xs" by blast
  from reach_ok [OF assms(1,2) h assms(3) xs assms(4)]
  have inv: "run_inv h (Finite q) xs (errorHandler ex) st"
    and ok: "ctl_ok (Finite q) xs st (control st)" by simp_all
  from inv have b: "of_nat (activeCount (pool st)) < q + 1"
    and conc: "concurrency (pool st) = JNum (Finite q)"
    and hs: "handler (pool st) = JFunction h"
    and dist: "distinct (tasks (pool st))"
    by (simp_all add: run_inv_def activeCount_def)
  have 2: "\<forall>n. q = of_nat n \<longrightarrow> activeCount (pool st) \<le> n"
  proof (intro allI impI)
    fix n :: nat assume "q = of_nat n"
    with b have "(of_nat (activeCount (pool st)) :: rat) < of_nat (Suc n)" by simp
    then have "activeCount (pool st) < Suc n" by (simp only: of_nat_less_iff)
    then show "activeCount (pool st) \<le> n" by simp
  qed
  have 3: "\<forall>index x rest. q \<le> of_nat (activeCount (pool st)) \<longrightarrow>
      control (admit ((index, x) # rest) st)
        = AwaitSlot (tasks (pool st)) Pending index x rest"
    by (simp add: hasReachedConcurrencyLimit_def conc)
  have 4: "\<forall>ms index x rest. control st = AwaitSlot ms Fulfilled index x rest \<longrightarrow>
      step Resume st = Some (admit rest (startProcessing x index st)) \<and>
      activeCount (pool (startProcessing x index st)) = Suc (activeCount (pool st)) \<and>
      of_nat (activeCount (pool st)) < q"
  proof (intro allI impI)
    fix ms index x rest
    assume c: "control st = AwaitSlot ms Fulfilled index x rest"
    have sub: "set (tasks (pool st)) \<subseteq> set ms"
      and bd: "\<forall>q'. Finite q = Finite q' \<longrightarrow> of_nat (length ms) < q' + 1"
      and free: "\<exists>t \<in> set ms. t \<notin> set (tasks (pool st))"
      using ok c by simp_all
    from tasks_room [OF dist sub free bd]
    have "of_nat (activeCount (pool st)) < q" by (simp add: activeCount_def)
    then show "step Resume st = Some (admit rest (startProcessing x index st)) \<and>
      activeCount (pool (startProcessing x index st)) = Suc (activeCount (pool st)) \<and>
      of_nat (activeCount (pool st)) < q"
      by (simp add: c activeCount_def startProcessing_fields [OF hs])
  qed
  from b 2 3 4 show ?thesis by blast
qed

theorem active_count_bounded_witness:
  "validateInputs (example_pool 2 [''a'', ''b'', ''c''] (JFunction throwing))
     = Inr (example_pool 2 [''a'', ''b'', ''c''] (JFunction throwing)) \<and>
   tasks (example_pool 2 [''a'', ''b'', ''c''] (JFunction throwing)) = [] \<and>
   concurrency (example_pool 2 [''a'', ''b'', ''c''] (JFunction throwing)) = JNum (Finite 2) \<and>
   (\<exists>st. exec [HandlerSettles 0, TaskSettles 0, HandlerSettles 1, Resume]
            (start (example_pool 2 [''a'', ''b'', ''c''] (JFunction throwing))) = Some st \<and>
         activeCount (pool st) \<le> 2)"
proof -
  let ?ex = "example_pool 2 [''a'', ''b'', ''c''] (JFunction throwing)"
  have v: "validateInputs ?ex = Inr ?ex" by (simp add: example_pool_valid)
  have t: "tasks ?ex = []" and c: "concurrency ?ex = JNum (Finite 2)"
    by (simp_all add: example_pool_fields)
  obtain st where st: "exec [HandlerSettles 0, TaskSettles 0, HandlerSettles 1, Resume]
      (start ?ex) = Some st"
    by (simp add: run_eval)
  from active_count_bounded [OF v t c st]
  have "\<forall>n. (2::rat) = of_nat n \<longrightarrow> activeCount (pool st) \<le> n" by blast
  then have "activeCount (pool st) \<le> 2"
    by (metis of_nat_numeral)
  with v t c st show ?thesis by blast
qed

section \<open>Admission order\<close>

lemma calls_prefix:
  "k \<le> length xs \<Longrightarrow> map (\<lambda>i. (xs ! i, i)) [0..<k] = take k (zip xs [0..<length xs])"
  by (rule nth_equalityI) simp_all

lemma reactions_of_tasks:
  assumes "map fst rs = ts"
    and "\<forall>r \<in> set rs. fst (snd r) = xs ! fst r \<and> snd (snd r) = h (xs ! fst r) (fst r)"
  shows "rs = map (\<lambda>i. (i, xs ! i, h (xs ! i) i)) ts"
  using assms
proof (induction rs arbitrary: ts)
  case Nil
  then show ?case by simp
next
  case (Cons r rs)
  obtain i x s where r: "r = (i, x, s)" by (rule prod_cases3)
  from Cons.prems(1) have ts: "ts = i # map fst rs" by (simp add: r)
  from Cons.prems(2) have x: "x = xs ! i" "s = h (xs ! i) i" by (simp_all add: r)
  from Cons.prems(2) have "\<forall>r \<in> set rs.
      fst (snd r) = xs ! fst r \<and> snd (snd r) = h (xs ! fst r) (fst r)" by simp
  from Cons.IH [OF refl this] show ?case by (simp add: r ts x)
qed

text \<open>
  C8. In every run started on a validated executor with no task in flight and the
  processing function \<open>h\<close>, the entries started so far are a prefix of the input, in input
  order, none skipped. For every one of them \<open>h\<close> was called with the item and its
  index: while its task is in \<open>this.tasks\<close>, the promise its callbacks wait on is that of
  \<open>h (item, index)\<close>; once its callback has run, what was recorded (a result, an error,
  a call of the error handler) is the outcome of \<open>h (item, index)\<close>. When \<open>start()\<close>
  resolves, every item has been started and the callback of every task has run.
\<close>

theorem admitted_in_input_order:
  assumes "validateInputs ex = Inr ex" and "tasks ex = []"
    and "handler ex = JFunction h" and "items ex = JArray xs"
    and "exec evs (start ex) = Some st"
  shows "handlerCalls st = take (admitted st) (zip xs [0..<length xs]) \<and>
         reactions st = map (\<lambda>i. (i, xs ! i, h (xs ! i) i)) (tasks (pool st)) \<and>
         set (handled evs) \<union> set (tasks (pool st)) = {0..<admitted st} \<and>
         results (pool st) = results ex @ successes h xs (handled evs) \<and>
         errors (pool st) = errors ex @
           (if truthy (errorHandler ex) then []
            else map (\<lambda>(e, x). createFrom e x) (failures h xs (handled evs))) \<and>
         errorHandlerCalls st =
           (if truthy (errorHandler ex) then failures h xs (handled evs) else []) \<and>
         (\<forall>rv. control st = Resolved rv \<longrightarrow>
            handlerCalls st = zip xs [0..<length xs] \<and>
            set (handled evs) = {0..<length xs})"
proof -
  from validated_shape [OF assms(1)] obtain c
    where c: "concurrency ex = JNum c" by blast
  from reach_ok [OF assms(1,2,3) c assms(4,5)]
  have inv: "run_inv h c xs (errorHandler ex) st" and ok: "ctl_ok c xs st (control st)"
    and hi: "hist ex h xs evs st"
    by simp_all
  from inv have k: "admitted st \<le> length xs"
    and calls: "handlerCalls st = map (\<lambda>i. (xs ! i, i)) [0..<admitted st]"
    and mf: "map fst (reactions st) = tasks (pool st)"
    and rc: "\<forall>r \<in> set (reactions st).
      fst (snd r) = xs ! fst r \<and> snd (snd r) = h (xs ! fst r) (fst r)"
    by (simp_all add: run_inv_def)
  have 1: "handlerCalls st = take (admitted st) (zip xs [0..<length xs])"
    using calls calls_prefix [OF k] by simp
  have 2: "reactions st = map (\<lambda>i. (i, xs ! i, h (xs ! i) i)) (tasks (pool st))"
    by (rule reactions_of_tasks [where rs = "reactions st" and ts = "tasks (pool st)" and xs = xs and h = h, OF mf rc])
  from hi have 3: "set (handled evs) \<union> set (tasks (pool st)) = {0..<admitted st}"
    and 4: "results (pool st) = results ex @ successes h xs (handled evs)"
    and 5: "errors (pool st) = errors ex @
           (if truthy (errorHandler ex) then []
            else map (\<lambda>(e, x). createFrom e x) (failures h xs (handled evs)))"
    and 6: "errorHandlerCalls st =
           (if truthy (errorHandler ex) then failures h xs (handled evs) else [])"
    by (simp_all add: hist_def)
  have 7: "\<forall>rv. control st = Resolved rv \<longrightarrow>
            handlerCalls st = zip xs [0..<length xs] \<and>
            set (handled evs) = {0..<length xs}"
  proof (intro allI impI)
    fix rv assume r: "control st = Resolved rv"
    then have "admitted st = length xs" "tasks (pool st) = []" using ok by auto
    with 1 3 show "handlerCalls st = zip xs [0..<length xs] \<and>
            set (handled evs) = {0..<length xs}" by simp
  qed
  from 1 2 3 4 5 6 7 show ?thesis by blast
qed

text \<open>
  With concurrency 2 and the items \<open>a\<close>, \<open>b\<close>, \<open>c\<close>: when \<open>start\<close> first suspends, the
  tasks of \<open>a\<close> and \<open>b\<close> wait on the outcomes of the example handler at \<open>(a, 0)\<close> and
  \<open>(b, 1)\<close>; at the end of the run the handler has been called on the three entries in
  order and the results are its values at \<open>(a, 0)\<close> and \<open>(c, 2)\<close>.
\<close>

theorem admitted_in_input_order_witness:
  "validateInputs (example_pool 2 [''a'', ''b'', ''c''] (JFunction throwing))
     = Inr (example_pool 2 [''a'', ''b'', ''c''] (JFunction throwing)) \<and>
   reactions (start (example_pool 2 [''a'', ''b'', ''c''] (JFunction throwing)))
     = [(0, ''a'', Fulfils ''a''), (1, ''b'', Rejects ''boom'')] \<and>
   (\<exists>st. exec [HandlerSettles 0, TaskSettles 0, HandlerSettles 1, Resume,
               HandlerSettles 2, TaskSettles 2, Resume]
            (start (example_pool 2 [''a'', ''b'', ''c''] (JFunction throwing))) = Some st \<and>
         handlerCalls st = [(''a'', 0), (''b'', 1), (''c'', 2)] \<and>
         results (pool st) = [''a'', ''c''] \<and>
         errorHandlerCalls st = [(''boom'', ''b'')])"
proof -
  let ?ex = "example_pool 2 [''a'', ''b'', ''c''] (JFunction throwing)"
  let ?evs = "[HandlerSettles 0, TaskSettles 0, HandlerSettles 1, Resume,
               HandlerSettles 2, TaskSettles 2, Resume]"
  have v: "validateInputs ?ex = Inr ?ex" by (simp add: example_pool_valid)
  have f: "tasks ?ex = []" "handler ?ex = JFunction example_handler"
    "items ?ex = JArray [''a'', ''b'', ''c'']"
    by (simp_all add: example_pool_fields)
  have s0: "exec [] (start ?ex) = Some (start ?ex)" by simp
  have t0: "tasks (pool (start ?ex)) = [0, 1]" by (simp add: run_eval)
  note T0 = admitted_in_input_order [OF v f s0]
  from T0 have "reactions (start ?ex) =
      map (\<lambda>i. (i, [''a'', ''b'', ''c''] ! i, example_handler ([''a'', ''b'', ''c''] ! i) i))
        (tasks (pool (start ?ex)))"
    by blast
  then have 1: "reactions (start ?ex) = [(0, ''a'', Fulfils ''a''), (1, ''b'', Rejects ''boom'')]"
    by (simp add: t0 example_handler_def)
  from run_swallowed obtain st where st: "exec ?evs (start ?ex) = Some st"
    and r: "control st = Resolved (ReturnValue [''a'', ''c''] [])"
    by blast
  note T = admitted_in_input_order [OF v f st]
  from T r have "handlerCalls st = zip [''a'', ''b'', ''c''] [0..<length [''a'', ''b'', ''c'']]"
    by blast
  then have 2: "handlerCalls st = [(''a'', 0), (''b'', 1), (''c'', 2)]"
    by (simp add: upt_rec)
  from T have "results (pool st) = results ?ex @
      successes example_handler [''a'', ''b'', ''c''] (handled ?evs)"
    by blast
  then have 3: "results (pool st) = [''a'', ''c'']"
    by (simp add: example_pool_fields successes_def example_handler_def)
  from T have "errorHandlerCalls st =
      (if truthy (errorHandler ?ex)
       then failures example_handler [''a'', ''b'', ''c''] (handled ?evs) else [])"
    by blast
  then have 4: "errorHandlerCalls st = [(''boom'', ''b'')]"
    by (simp add: example_pool_fields failures_def example_handler_def)
  from v 1 2 3 4 st show ?thesis by blast
qed

section \<open>Completion order\<close>

text \<open>
  C9. The results are the values of the fulfilled handler calls in the order in which the
  callbacks of their tasks ran, and the errors (with no error handler) those of the
  rejected ones in that order: completion order, whatever the input order. A task started
  later whose callback runs earlier is recorded earlier.
\<close>

theorem collections_in_completion_order:
  assumes "validateInputs ex = Inr ex"
    and "tasks ex = []" and "results ex = []" and "errors ex = []"
    and "handler ex = JFunction h" and "items ex = JArray xs"
    and "exec evs (start ex) = Some st"
  shows "results (pool st) = successes h xs (handled evs) \<and>
         errors (pool st) =
           (if truthy (errorHandler ex) then []
            else map (\<lambda>(e, x). createFrom e x) (failures h xs (handled evs)))"
proof -
  from validated_shape [OF assms(1)] obtain c
    where c: "concurrency ex = JNum c" by blast
  from reach_ok [OF assms(1,2,5) c assms(6,7)]
  have "hist ex h xs evs st" by simp
  then show ?thesis by (simp add: hist_def assms(3,4))
qed

theorem collections_in_completion_order_witness:
  "validateInputs (example_pool 10 [''a'', ''b'', ''c''] JUndefined)
     = Inr (example_pool 10 [''a'', ''b'', ''c''] JUndefined) \<and>
   (\<exists>st. exec [HandlerSettles 2, HandlerSettles 1, HandlerSettles 0, TaskSettles 2,
               TaskSettles 0, Resume]
            (start (example_pool 10 [''a'', ''b'', ''c''] JUndefined)) = Some st \<and>
         results (pool st) = [''c'', ''a''] \<and>
         successes example_handler [''a'', ''b'', ''c''] [2, 1, 0] = [''c'', ''a''] \<and>
         errors (pool st) = [PoolError ''boom'' ''b''])"
proof -
  let ?ex = "example_pool 10 [''a'', ''b'', ''c''] JUndefined"
  let ?evs = "[HandlerSettles 2, HandlerSettles 1, HandlerSettles 0, TaskSettles 2,
               TaskSettles 0, Resume]"
  have v: "validateInputs ?ex = Inr ?ex" by (simp add: example_pool_valid)
  from run_out_of_order obtain st where st: "exec ?evs (start ?ex) = Some st"
    by blast
  have s: "successes example_handler [''a'', ''b'', ''c''] [2, 1, 0] = [''c'', ''a'']"
    by (simp add: successes_def example_handler_def)
  from collections_in_completion_order [OF v _ _ _ _ _ st, of example_handler "[''a'', ''b'', ''c'']"]
  have "results (pool st) = [''c'', ''a''] \<and> errors (pool st) = [PoolError ''boom'' ''b'']"
    by (simp add: example_pool_fields successes_def failures_def example_handler_def
        createFrom_def)
  with v st s show ?thesis by auto
qed

section \<open>Every item ends in one collection\<close>

lemma one_entry_each:
  "length (successes h xs ids) + length (failures h xs ids) = length ids"
  by (induction ids) (simp_all add: successes_def failures_def split: settlement.splits)

lemma all_handled_length:
  assumes "distinct ids" and "set ids = {0..<n}"
  shows "length ids = n"
  using assms by (metis card_atLeastLessThan distinct_card minus_nat.diff_0)

lemma resolved_all_handled:
  assumes "ctl_ok c xs st (control st)" and "hist ex h xs evs st"
    and "control st = Resolved rv"
  shows "set (handled evs) = {0..<length xs} \<and>
         rv = ReturnValue (results (pool st)) (errors (pool st))"
  using assms by (auto simp: hist_def)

text \<open>
  The collections are never emptied. The pool with the items \<open>a\<close>, \<open>b\<close>, \<open>c\<close> and no error
  handler, after one run, holds two results and one error; a second \<open>start()\<close> on it
  resolves with four results and two errors for its three items.
\<close>

theorem second_start_counterexample:
  "map_option pool
     (exec [HandlerSettles 2, HandlerSettles 1, HandlerSettles 0, TaskSettles 2,
            TaskSettles 0, Resume]
        (start (example_pool 10 [''a'', ''b'', ''c''] JUndefined)))
     = Some ((example_pool 10 [''a'', ''b'', ''c''] JUndefined)
              \<lparr>results := [''c'', ''a''], errors := [PoolError ''boom'' ''b'']\<rparr>) \<and>
   validateInputs ((example_pool 10 [''a'', ''b'', ''c''] JUndefined)
              \<lparr>results := [''c'', ''a''], errors := [PoolError ''boom'' ''b'']\<rparr>)
     = Inr ((example_pool 10 [''a'', ''b'', ''c''] JUndefined)
              \<lparr>results := [''c'', ''a''], errors := [PoolError ''boom'' ''b'']\<rparr>) \<and>
   \<not> truthy (errorHandler ((example_pool 10 [''a'', ''b'', ''c''] JUndefined)
              \<lparr>results := [''c'', ''a''], errors := [PoolError ''boom'' ''b'']\<rparr>)) \<and>
   items ((example_pool 10 [''a'', ''b'', ''c''] JUndefined)
              \<lparr>results := [''c'', ''a''], errors := [PoolError ''boom'' ''b'']\<rparr>)
     = JArray [''a'', ''b'', ''c''] \<and>
   map_option control
     (exec [HandlerSettles 2, HandlerSettles 1, HandlerSettles 0, TaskSettles 2,
            TaskSettles 0, Resume]
        (start ((example_pool 10 [''a'', ''b'', ''c''] JUndefined)
              \<lparr>results := [''c'', ''a''], errors := [PoolError ''boom'' ''b'']\<rparr>)))
     = Some (Resolved (ReturnValue [''c'', ''a'', ''c'', ''a'']
                        [PoolError ''boom'' ''b'', PoolError ''boom'' ''b''])) \<and>
   length [''c'', ''a'', ''c'', ''a''] +
     length [PoolError ''boom'' ''b'', PoolError ''boom'' ''b'' :: (string, string) PromisePoolError]
     \<noteq> length [''a'', ''b'', ''c'']"
  by (simp add: run_eval)

text \<open>
  C2, amended. In a run with no error handler, started on an executor with no task in
  flight, when \<open>start()\<close> resolves the callback of every item's task has run exactly once;
  a fulfilled call has appended one entry to \<open>results\<close> and a rejected call one entry to
  \<open>errors\<close>, after the entries the two collections held when \<open>start()\<close> was called. So
  \<open>results.length + errors.length\<close> is \<open>items.length\<close> plus the number of those earlier
  entries: \<open>items.length\<close> on an executor whose collections are empty, as the constructor
  leaves them.
\<close>

theorem results_plus_errors_is_items:
  assumes "validateInputs ex = Inr ex"
    and "tasks ex = []"
    and "\<not> truthy (errorHandler ex)"
    and "handler ex = JFunction h" and "items ex = JArray xs"
    and "exec evs (start ex) = Some st"
    and "control st = Resolved rv"
  shows "distinct (handled evs) \<and> set (handled evs) = {0..<length xs} \<and>
         rv_results rv = results ex @ successes h xs (handled evs) \<and>
         rv_errors rv = errors ex @
           map (\<lambda>(e, x). createFrom e x) (failures h xs (handled evs)) \<and>
         length (rv_results rv) + length (rv_errors rv)
           = length (results ex) + length (errors ex) + length xs \<and>
         (results ex = [] \<and> errors ex = [] \<longrightarrow>
            length (rv_results rv) + length (rv_errors rv) = length xs)"
proof -
  from validated_shape [OF assms(1)] obtain c
    where c: "concurrency ex = JNum c" by blast
  from reach_ok [OF assms(1,2,4) c assms(5,6)]
  have ok: "ctl_ok c xs st (control st)" and hi: "hist ex h xs evs st" by simp_all
  from resolved_all_handled [OF ok hi assms(7)]
  have all: "set (handled evs) = {0..<length xs}"
    and rv: "rv = ReturnValue (results (pool st)) (errors (pool st))" by simp_all
  from hi have d: "distinct (handled evs)"
    and r: "rv_results rv = results ex @ successes h xs (handled evs)"
    and e: "rv_errors rv = errors ex @
      map (\<lambda>(e, x). createFrom e x) (failures h xs (handled evs))"
    by (simp_all add: hist_def rv assms(3))
  have "length (successes h xs (handled evs)) + length (failures h xs (handled evs))
      = length (handled evs)"
    by (rule one_entry_each)
  also have "\<dots> = length xs" by (rule all_handled_length [OF d all])
  finally have n: "length (rv_results rv) + length (rv_errors rv)
      = length (results ex) + length (errors ex) + length xs"
    by (simp add: r e)
  then have "results ex = [] \<and> errors ex = [] \<longrightarrow>
      length (rv_results rv) + length (rv_errors rv) = length xs"
    by simp
  with d all r e n show ?thesis by blast
qed

text \<open>
  The first run of the pool with the items \<open>a\<close>, \<open>b\<close>, \<open>c\<close>, whose collections are empty:
  two results and one error for three items.
\<close>

theorem results_plus_errors_is_items_witness:
  "validateInputs (example_pool 10 [''a'', ''b'', ''c''] JUndefined)
     = Inr (example_pool 10 [''a'', ''b'', ''c''] JUndefined) \<and>
   tasks (example_pool 10 [''a'', ''b'', ''c''] JUndefined) = [] \<and>
   \<not> truthy (errorHandler (example_pool 10 [''a'', ''b'', ''c''] JUndefined)) \<and>
   (\<exists>st rv. exec [HandlerSettles 2, HandlerSettles 1, HandlerSettles 0, TaskSettles 2,
                  TaskSettles 0, Resume]
            (start (example_pool 10 [''a'', ''b'', ''c''] JUndefined)) = Some st \<and>
         control st = Resolved rv \<and>
         rv = ReturnValue [''c'', ''a''] [PoolError ''boom'' ''b''] \<and>
         length (rv_results rv) + length (rv_errors rv) = length [''a'', ''b'', ''c''])"
proof -
  let ?ex = "example_pool 10 [''a'', ''b'', ''c''] JUndefined"
  let ?evs = "[HandlerSettles 2, HandlerSettles 1, HandlerSettles 0, TaskSettles 2,
               TaskSettles 0, Resume]"
  let ?rv = "ReturnValue [''c'', ''a''] [PoolError ''boom'' ''b'']
    :: (string, string, string) ReturnValue"
  have v: "validateInputs ?ex = Inr ?ex" by (simp add: example_pool_valid)
  have f: "tasks ?ex = []" "\<not> truthy (errorHandler ?ex)"
    "handler ?ex = JFunction example_handler" "items ?ex = JArray [''a'', ''b'', ''c'']"
    and em: "results ?ex = [] \<and> errors ?ex = []"
    by (simp_all add: example_pool_fields)
  from run_out_of_order obtain st where st: "exec ?evs (start ?ex) = Some st"
    and r: "control st = Resolved ?rv"
    by blast
  note T = results_plus_errors_is_items [OF v f st r]
  from T em have "length (rv_results ?rv) + length (rv_errors ?rv) = length [''a'', ''b'', ''c'']"
    by blast
  with v f(1,2) st r show ?thesis by blast
qed

section \<open>A configured error handler\<close>




section \<open>Runs come to rest\<close>

lemma step_enabled: "(step ev st \<noteq> None) = (ev \<in> set (enabled st))"
proof (cases ev)
  case (HandlerSettles i)
  have "(map_of (reactions st) i \<noteq> None) = (i \<in> fst ` set (reactions st))"
    by (simp add: map_of_eq_None_iff)
  moreover have "(step ev st \<noteq> None) = (map_of (reactions st) i \<noteq> None)"
    by (auto simp: HandlerSettles split: option.splits settlement.splits)
  ultimately show ?thesis
    by (auto simp: HandlerSettles enabled_def split: option.splits)
next
  case (TaskSettles i)
  have "(map_of (settling st) i \<noteq> None) = (i \<in> fst ` set (settling st))"
    by (simp add: map_of_eq_None_iff)
  moreover have "(step ev st \<noteq> None) = (map_of (settling st) i \<noteq> None)"
    by (auto simp: TaskSettles split: option.splits)
  ultimately show ?thesis
    by (auto simp: TaskSettles enabled_def split: option.splits)
next
  case Resume
  then show ?thesis
    by (cases "continue (control st) st") (auto simp: enabled_def)
qed

lemma at_rest:
  assumes inv: "run_inv h c xs eh st" and ok: "ctl_ok c xs st (control st)"
    and rest: "enabled st = []"
  shows "control st = Resolved (ReturnValue (results (pool st)) (errors (pool st))) \<or>
         (\<exists>r. control st = RejectedWith r)"
proof -
  from rest have r: "reactions st = []" and s: "settling st = []"
    and k: "continue (control st) st = None"
    by (simp_all add: enabled_def split: option.splits)
  have "map fst (reactions st) = tasks (pool st)" using inv by (simp add: run_inv_def)
  with r have t: "tasks (pool st) = []" by simp
  show ?thesis
  proof (cases "control st")
    case (AwaitSlot ms p index x rest)
    with ok k t s show ?thesis by (cases p) auto
  next
    case (AwaitDrain ms p)
    with ok k t s show ?thesis by (cases p) auto
  next
    case (Resolved rv)
    with ok show ?thesis by simp
  next
    case (RejectedWith r)
    then show ?thesis by simp
  next
    case Running
    with ok show ?thesis by simp
  next
    case OutsideModel
    with ok show ?thesis by simp
  qed
qed

lemma admit_not_rejecting: "\<not> rejecting (control (admit es st))"
proof (induction es arbitrary: st)
  case Nil
  show ?case by (simp add: drained_def all_of_def)
next
  case (Cons a es)
  obtain index x where a: "a = (index, x)" by (cases a)
  show ?case
    using Cons.IH
    by (cases "hasReachedConcurrencyLimit (pool st)") (auto simp: a split: bool.splits)
qed

lemma react_fulfils_not_rejecting:
  "\<not> rejecting ctl \<Longrightarrow> \<not> rejecting (react t (Fulfils u) ctl)"
proof (cases ctl)
  case (AwaitSlot ms p index x rest)
  assume "\<not> rejecting ctl"
  with AwaitSlot show ?thesis by (cases p) (simp_all add: settled_as_def)
next
  case (AwaitDrain ms p)
  assume "\<not> rejecting ctl"
  with AwaitDrain show ?thesis by (cases p) (simp_all add: all_of_def)
qed simp_all

lemma calm_step:
  assumes inv: "run_inv h c xs eh st" and ok: "ctl_ok c xs st (control st)"
    and no: "\<not> truthy eh" and calm: "calm st" and st: "step ev st = Some st'"
  shows "calm st'"
proof (cases ev)
  case (HandlerSettles i)
  obtain x s where m: "map_of (reactions st) i = Some (x, s)"
    using st by (auto simp: HandlerSettles split: option.splits)
  have ehv: "errorHandler (pool st) = eh" using inv by (simp add: run_inv_def)
  let ?b = "st\<lparr>reactions := without i (reactions st)\<rparr>"
  show ?thesis
  proof (cases s)
    case (Fulfils r)
    then have "st' = on_fulfilled i r ?b" using st m by (simp add: HandlerSettles)
    then show ?thesis using calm by (simp add: calm_def on_fulfilled_def)
  next
    case (Rejects e)
    then have st': "st' = on_rejected i e x ?b" using st m by (simp add: HandlerSettles)
    have u: "\<not> truthy (errorHandler (pool ?b))" using no ehv by simp
    show ?thesis
      unfolding st' on_rejected_unhandled [OF u]
      using calm react_fulfils_not_rejecting [of "control st" i "()"]
      by (simp add: calm_def settle_def)
  qed
next
  case (TaskSettles i)
  obtain s where m: "map_of (settling st) i = Some s"
    using st by (auto simp: TaskSettles split: option.splits)
  then have "(i, s) \<in> set (settling st)" by (rule map_of_SomeD)
  then have s: "s = Fulfils ()" using calm by (auto simp: calm_def)
  have st': "st' = settle i s (st\<lparr>settling := without i (settling st)\<rparr>)"
    using st m by (simp add: TaskSettles)
  show ?thesis
    unfolding st' s
    using calm react_fulfils_not_rejecting [of "control st" i "()"]
    by (simp add: calm_def settle_def set_without)
next
  case Resume
  from st have k: "continue (control st) st = Some st'" by (simp add: Resume)
  from continue_ok [OF inv ok k] have s: "settling st' = settling st" by simp
  have "\<not> rejecting (control st')"
  proof (cases "control st")
    case (AwaitSlot ms p index x rest)
    with k calm show ?thesis by (cases p) (auto simp: calm_def admit_not_rejecting)
  next
    case (AwaitDrain ms p)
    with k calm show ?thesis by (cases p) (auto simp: calm_def)
  qed (use k in simp_all)
  with s calm show ?thesis by (simp add: calm_def)
qed


lemma awaiting_react: "awaiting (react t s ctl) = awaiting ctl"
proof (cases ctl)
  case (AwaitDrain ms p)
  then show ?thesis by (cases "all_react t s ms p") simp
qed simp_all

lemma handler_settles_small:
  assumes "step (HandlerSettles i) st = Some st'"
  shows "length (settling st') \<le> Suc (length (settling st)) \<and>
         (awaiting (control st') \<longrightarrow> awaiting (control st))"
proof -
  obtain x s where m: "map_of (reactions st) i = Some (x, s)"
    using assms by (auto split: option.splits)
  let ?b = "st\<lparr>reactions := without i (reactions st)\<rparr>"
  show ?thesis
  proof (cases s)
    case (Fulfils r)
    then have "st' = on_fulfilled i r ?b" using assms m by simp
    then show ?thesis by (simp add: on_fulfilled_def)
  next
    case (Rejects e)
    then have st': "st' = on_rejected i e x ?b" using assms m by simp
    show ?thesis
      unfolding st'
      by (simp add: on_rejected_def Let_def settle_def awaiting_react
          split: jsval.splits handling.splits)
  qed
qed

lemma continue_fuel:
  assumes inv: "run_inv h c xs eh st" and ok: "ctl_ok c xs st (control st)"
    and st: "continue (control st) st = Some st'"
  shows "admitted st < admitted st' \<or>
         (admitted st' = admitted st \<and> awaiting (control st) \<and> \<not> awaiting (control st'))"
proof (cases "control st")
  case (AwaitSlot ms p index x rest)
  show ?thesis
  proof (cases p)
    case Pending
    with st AwaitSlot show ?thesis by simp
  next
    case Fulfilled
    let ?k = "admitted st"
    have e: "(index, x) # rest = drop ?k (entries xs)"
      and sub: "set (tasks (pool st)) \<subseteq> set ms"
      and bd: "\<forall>q. c = Finite q \<longrightarrow> of_nat (length ms) < q + 1"
      and free: "\<exists>t \<in> set ms. t \<notin> set (tasks (pool st))"
      using ok AwaitSlot Fulfilled by simp_all
    have d: "?k < length xs" "index = ?k" "x = xs ! ?k" "rest = drop (Suc ?k) (entries xs)"
      using drop_entries_Cons [OF e] by simp_all
    have h: "handler (pool st) = JFunction h" and dist: "distinct (tasks (pool st))"
      using inv by (simp_all add: run_inv_def)
    let ?st1 = "startProcessing (xs ! ?k) ?k st"
    have st': "st' = admit rest ?st1"
      using st AwaitSlot Fulfilled d by simp
    have inv1: "run_inv h c xs eh ?st1"
      by (rule startProcessing_inv [OF inv d(1) tasks_room [OF dist sub free bd]])
    have ad: "admitted ?st1 = Suc ?k"
      by (simp add: admitted_def startProcessing_fields [OF h])
    have r: "rest = drop (admitted ?st1) (entries xs)" by (simp add: ad d(4))
    from admit_ok [OF inv1 r] have "admitted ?st1 \<le> admitted st'"
      unfolding st' by simp
    then show ?thesis by (simp add: ad)
  next
    case (Rejected e)
    then have "st' = st\<lparr>control := RejectedWith (Escaped e)\<rparr>"
      using st AwaitSlot by simp
    then show ?thesis by (simp add: AwaitSlot admitted_def)
  qed
next
  case (AwaitDrain ms p)
  with st show ?thesis by (cases p) (auto simp: admitted_def)
qed (use st in simp_all)

lemma fuel_arith:
  fixes k :: nat
  assumes "k < k'" and "k' \<le> n" and "a \<le> 1"
  shows "3 * (n - k') + 2 * (l + (k' - k)) + s + a < 3 * (n - k) + 2 * l + s + 1"
proof -
  obtain d where d: "k' = k + Suc d" using assms(1) less_iff_Suc_add by auto
  obtain m where m: "n = k' + m" using assms(2) le_iff_add by auto
  show ?thesis using assms(3) by (simp add: d m)
qed

lemma fuel_step:
  assumes inv: "run_inv h c xs eh st" and ok: "ctl_ok c xs st (control st)"
    and st: "step ev st = Some st'"
  shows "fuel (length xs) st' < fuel (length xs) st"
proof (cases ev)
  case (HandlerSettles i)
  note H = handler_settles_ok [OF inv ok st [unfolded HandlerSettles]]
  note S = handler_settles_small [OF st [unfolded HandlerSettles]]
  have i: "i \<in> set (tasks (pool st))" using H by simp
  then have "length (filter (\<lambda>t. t \<noteq> i) (tasks (pool st))) < length (tasks (pool st))"
    by (rule length_filter_less) simp
  then have "length (tasks (pool st')) < length (tasks (pool st))"
    using H by (simp add: removeAll_filter)
  moreover have "admitted st' = admitted st" using H by simp
  ultimately show ?thesis using S by (auto simp: fuel_def)
next
  case (TaskSettles i)
  note T = task_settles_ok [OF inv ok st [unfolded TaskSettles]]
  obtain s where m: "map_of (settling st) i = Some s"
    using st by (auto simp: TaskSettles split: option.splits)
  then have mem: "(i, s) \<in> set (settling st)" by (rule map_of_SomeD)
  have st': "st' = settle i s (st\<lparr>settling := without i (settling st)\<rparr>)"
    using st m by (simp add: TaskSettles)
  have "length (without i (settling st)) < length (settling st)"
    unfolding without_def using mem by (intro length_filter_less [of "(i, s)"]) simp_all
  moreover have "settling st' = without i (settling st)"
    "awaiting (control st') = awaiting (control st)"
    by (simp_all add: st' settle_def awaiting_react)
  ultimately show ?thesis using T by (simp add: fuel_def admitted_def)
next
  case Resume
  from st have k: "continue (control st) st = Some st'" by (simp add: Resume)
  note C = continue_ok [OF inv ok k]
  from C have le: "admitted st' \<le> length xs" by (simp add: run_inv_def)
  from C have len: "length (tasks (pool st')) =
      length (tasks (pool st)) + (admitted st' - admitted st)" by simp
  from C have s: "settling st' = settling st" by simp
  have aw: "awaiting (control st)"
    using k by (cases "control st") simp_all
  from continue_fuel [OF inv ok k] show ?thesis
  proof
    assume lt: "admitted st < admitted st'"
    have "(if awaiting (control st') then 1 else 0) \<le> (1::nat)" by simp
    from fuel_arith [OF lt le this] len s aw show ?thesis by (simp add: fuel_def)
  next
    assume "admitted st' = admitted st \<and> awaiting (control st) \<and> \<not> awaiting (control st')"
    with len s show ?thesis by (simp add: fuel_def)
  qed
qed

lemma start_fuel:
  assumes v: "validateInputs ex = Inr ex" and t: "tasks ex = []"
    and xs: "items ex = JArray xs"
  shows "fuel (length xs) (start ex) \<le> 3 * length xs + 1"
proof -
  from validated_shape [OF v] obtain h c
    where h: "handler ex = JFunction h" and c: "concurrency ex = JNum c" by blast
  let ?st0 = "\<lparr>pool = ex, control = Running, reactions = [], settling = [],
               handlerCalls = [], errorHandlerCalls = []\<rparr> :: ('a, 'b, 'c) run"
  have s: "start ex = admit (entries xs) ?st0"
    by (simp add: start_def v process_def xs)
  from validated_shape [OF v] c
  have one: "num_ge c (Finite 1)"
    and eh: "truthy (errorHandler ex) \<longrightarrow> (\<exists>f. errorHandler ex = JFunction f)"
    by auto
  have "\<forall>q. c = Finite q \<longrightarrow> (0::rat) < q + 1" using one by auto
  then have inv0: "run_inv h c xs (errorHandler ex) ?st0"
    using h c xs t one eh by (simp add: run_inv_def admitted_def)
  have e: "entries xs = drop (admitted ?st0) (entries xs)" by (simp add: admitted_def)
  note A = admit_ok [OF inv0 e]
  have a0: "admitted ?st0 = 0" by (simp add: admitted_def)
  from A have f: "admitted (start ex) \<le> length xs"
    "length (tasks (pool (start ex))) = admitted (start ex)"
    "settling (start ex) = []"
    unfolding s by (simp_all add: a0 t run_inv_def)
  then obtain m where "length xs = admitted (start ex) + m"
    using le_iff_add by auto
  with f show ?thesis by (simp add: fuel_def)
qed

lemma exec_fuel:
  assumes v: "validateInputs ex = Inr ex" and t: "tasks ex = []"
    and xs: "items ex = JArray xs"
    and ex: "exec evs (start ex) = Some st"
  shows "length evs + fuel (length xs) st \<le> 3 * length xs + 1"
  using ex
proof (induction evs arbitrary: st rule: rev_induct)
  case Nil
  then show ?case using start_fuel [OF v t xs] by simp
next
  case (snoc ev evs)
  from validated_shape [OF v] obtain h c
    where h: "handler ex = JFunction h" and c: "concurrency ex = JNum c" by blast
  from snoc.prems obtain s where s: "exec evs (start ex) = Some s" "step ev s = Some st"
    by (auto simp: exec_snoc split: option.splits)
  from reach_ok [OF v t h c xs s(1)]
  have "run_inv h c xs (errorHandler ex) s" "ctl_ok c xs s (control s)" by simp_all
  from fuel_step [OF this s(2)] snoc.IH [OF s(1)] show ?case by simp
qed


lemma start_calm:
  assumes v: "validateInputs ex = Inr ex" and t: "tasks ex = []"
  shows "calm (start ex)"
proof -
  from validated_shape [OF v] obtain h c xs
    where h: "handler ex = JFunction h" and c: "concurrency ex = JNum c"
      and xs: "items ex = JArray xs" by blast
  let ?st0 = "\<lparr>pool = ex, control = Running, reactions = [], settling = [],
               handlerCalls = [], errorHandlerCalls = []\<rparr> :: ('a, 'b, 'c) run"
  have s: "start ex = admit (entries xs) ?st0"
    by (simp add: start_def v process_def xs)
  from validated_shape [OF v] c
  have one: "num_ge c (Finite 1)"
    and eh: "truthy (errorHandler ex) \<longrightarrow> (\<exists>f. errorHandler ex = JFunction f)"
    by auto
  have "\<forall>q. c = Finite q \<longrightarrow> (0::rat) < q + 1" using one by auto
  then have inv0: "run_inv h c xs (errorHandler ex) ?st0"
    using h c xs t one eh by (simp add: run_inv_def admitted_def)
  have e: "entries xs = drop (admitted ?st0) (entries xs)" by (simp add: admitted_def)
  from admit_ok [OF inv0 e] have "settling (start ex) = []"
    unfolding s by simp
  then show ?thesis
    unfolding calm_def by (simp add: s admit_not_rejecting)
qed

lemma reach_calm:
  assumes v: "validateInputs ex = Inr ex" and t: "tasks ex = []"
    and no: "\<not> truthy (errorHandler ex)"
    and ex: "exec evs (start ex) = Some st"
  shows "calm st"
  using ex
proof (induction evs arbitrary: st rule: rev_induct)
  case Nil
  then show ?case using start_calm [OF v t] by simp
next
  case (snoc ev evs)
  from validated_shape [OF v] obtain h c xs
    where h: "handler ex = JFunction h" and c: "concurrency ex = JNum c"
      and xs: "items ex = JArray xs" by blast
  from snoc.prems obtain s where s: "exec evs (start ex) = Some s" "step ev s = Some st"
    by (auto simp: exec_snoc split: option.splits)
  from reach_ok [OF v t h c xs s(1)]
  have "run_inv h c xs (errorHandler ex) s" "ctl_ok c xs s (control s)" by simp_all
  from calm_step [OF this no snoc.IH [OF s(1)] s(2)] show ?case .
qed

section \<open>Failures of the processing function\<close>

lemma run_one_failure:
  "\<exists>st. exec [HandlerSettles 0, HandlerSettles 1, TaskSettles 0, Resume]
          (start (example_pool 10 [''a'', ''b''] JUndefined)) = Some st \<and>
        control st = Resolved (ReturnValue [''a''] [PoolError ''boom'' ''b'']) \<and>
        errors (pool st) = [PoolError ''boom'' ''b''] \<and>
        reactions st = [] \<and> settling st = []"
  by (simp add: run_eval)

text \<open>
  C3. In a run with no error handler, on an executor whose \<open>errors\<close> start empty, the
  errors are, in the order of the callbacks, the \<open>PromisePoolError\<close>s made of the raised
  error and the item of every task whose handler call rejected. Such a failure aborts
  nothing: \<open>start()\<close> is never rejected, the callback of every task still in
  \<open>this.tasks\<close> can still run, no run has more than \<open>3 * items.length + 1\<close> events, and
  a run that has come to rest has resolved with \<open>{results, errors}\<close>, the callback of every
  item's task having run.
\<close>

theorem item_failure_is_collected:
  assumes "validateInputs ex = Inr ex"
    and "tasks ex = []" and "errors ex = []"
    and "\<not> truthy (errorHandler ex)"
    and "handler ex = JFunction h" and "items ex = JArray xs"
    and "exec evs (start ex) = Some st"
  shows "errors (pool st) = map (\<lambda>(e, x). createFrom e x) (failures h xs (handled evs)) \<and>
         (\<forall>r. control st \<noteq> RejectedWith r) \<and>
         (\<forall>j \<in> set (tasks (pool st)). HandlerSettles j \<in> set (enabled st)) \<and>
         length evs \<le> 3 * length xs + 1 \<and>
         (enabled st = [] \<longrightarrow>
            control st = Resolved (ReturnValue (results (pool st)) (errors (pool st))) \<and>
            set (handled evs) = {0..<length xs})"
proof -
  from validated_shape [OF assms(1)] obtain c
    where c: "concurrency ex = JNum c" by blast
  from reach_ok [OF assms(1,2,5) c assms(6,7)]
  have inv: "run_inv h c xs (errorHandler ex) st"
    and ok: "ctl_ok c xs st (control st)" and hi: "hist ex h xs evs st" by simp_all
  from hi have 1: "errors (pool st) =
      map (\<lambda>(e, x). createFrom e x) (failures h xs (handled evs))"
    by (simp add: hist_def assms(3,4))
  from reach_calm [OF assms(1,2,4,7)] have 2: "\<forall>r. control st \<noteq> RejectedWith r"
    by (auto simp: calm_def)
  have mf: "map fst (reactions st) = tasks (pool st)" using inv by (simp add: run_inv_def)
  have 3: "\<forall>j \<in> set (tasks (pool st)). HandlerSettles j \<in> set (enabled st)"
    unfolding mf [symmetric] by (auto simp: enabled_def)
  from exec_fuel [OF assms(1,2,6,7)] have 4: "length evs \<le> 3 * length xs + 1" by simp
  have 5: "enabled st = [] \<longrightarrow>
      control st = Resolved (ReturnValue (results (pool st)) (errors (pool st))) \<and>
      set (handled evs) = {0..<length xs}"
  proof
    assume "enabled st = []"
    from at_rest [OF inv ok this] 2
    have r: "control st = Resolved (ReturnValue (results (pool st)) (errors (pool st)))"
      by blast
    with resolved_all_handled [OF ok hi r]
    show "control st = Resolved (ReturnValue (results (pool st)) (errors (pool st))) \<and>
      set (handled evs) = {0..<length xs}" by simp
  qed
  from 1 2 3 4 5 show ?thesis by blast
qed

theorem item_failure_is_collected_witness:
  "validateInputs (example_pool 10 [''a'', ''b''] JUndefined)
     = Inr (example_pool 10 [''a'', ''b''] JUndefined) \<and>
   \<not> truthy (errorHandler (example_pool 10 [''a'', ''b''] JUndefined)) \<and>
   (\<exists>st. exec [HandlerSettles 0, HandlerSettles 1, TaskSettles 0, Resume]
            (start (example_pool 10 [''a'', ''b''] JUndefined)) = Some st \<and>
         enabled st = [] \<and>
         control st = Resolved (ReturnValue [''a''] [PoolError ''boom'' ''b'']) \<and>
         errors (pool st) = [PoolError ''boom'' ''b''])"
proof -
  let ?ex = "example_pool 10 [''a'', ''b''] JUndefined"
  let ?evs = "[HandlerSettles 0, HandlerSettles 1, TaskSettles 0, Resume]"
  have v: "validateInputs ?ex = Inr ?ex" by (simp add: example_pool_valid)
  have f: "tasks ?ex = []" "errors ?ex = []" "\<not> truthy (errorHandler ?ex)"
    "handler ?ex = JFunction example_handler" "items ?ex = JArray [''a'', ''b'']"
    by (simp_all add: example_pool_fields)
  from run_one_failure obtain st where st: "exec ?evs (start ?ex) = Some st"
    and r: "control st = Resolved (ReturnValue [''a''] [PoolError ''boom'' ''b''])"
    and q: "reactions st = []" "settling st = []"
    by blast
  have rest: "enabled st = []" by (simp add: enabled_def q r)
  note T = item_failure_is_collected [OF v f st]
  from T have "errors (pool st) =
      map (\<lambda>(e, x). createFrom e x) (failures example_handler [''a'', ''b''] (handled ?evs))"
    by (rule conjunct1)
  then have "errors (pool st) = [PoolError ''boom'' ''b'']"
    by (simp add: failures_def example_handler_def createFrom_def)
  with v f(3) st rest r show ?thesis by blast
qed

section \<open>Errors of the error handler\<close>

text \<open>
  C5. An error raised by the error handler is meant to reject \<open>start()\<close> in every run.
  The code does that only when the rejected task is the one that settles the promise
  \<open>start\<close> is waiting on. With concurrency 2, the items \<open>a\<close>, \<open>b\<close>, \<open>c\<close>, a processing
  function that fails for \<open>b\<close> and an error handler that throws: when the callback of
  \<open>b\<close> runs first, \<open>start()\<close> is rejected with the error of the error handler; when the
  task of \<open>a\<close> fulfils first, it settles \<open>Promise.race\<close>, the callback of \<open>b\<close> removes
  its task from \<open>this.tasks\<close> and the error handler throws before \<open>process\<close> resumes, no
  later \<open>Promise.race\<close> or \<open>Promise.all\<close> holds that task, and \<open>start()\<close> resolves with the
  results of \<open>a\<close> and \<open>c\<close> and no error: the error of the error handler is lost.
\<close>

theorem error_handler_error_dropped:
  "throwing ''boom'' ''b'' = Throws ''rethrown boom'' \<and>
   map_option control
     (exec [HandlerSettles 1, Resume]
        (start (example_pool 2 [''a'', ''b'', ''c''] (JFunction throwing))))
     = Some (RejectedWith (Escaped ''rethrown boom'')) \<and>
   map_option errorHandlerCalls
     (exec [HandlerSettles 0, TaskSettles 0, HandlerSettles 1, Resume,
            HandlerSettles 2, TaskSettles 2, Resume]
        (start (example_pool 2 [''a'', ''b'', ''c''] (JFunction throwing))))
     = Some [(''boom'', ''b'')] \<and>
   map_option control
     (exec [HandlerSettles 0, TaskSettles 0, HandlerSettles 1, Resume,
            HandlerSettles 2, TaskSettles 2, Resume]
        (start (example_pool 2 [''a'', ''b'', ''c''] (JFunction throwing))))
     = Some (Resolved (ReturnValue [''a'', ''c''] []))"
  by (simp add: run_eval)

lemma react_settled:
  "doomed e ctl \<or> ctl = RejectedWith r \<Longrightarrow> react t s ctl = ctl"
proof (cases ctl)
  case (AwaitSlot ms p index x rest)
  assume "doomed e ctl \<or> ctl = RejectedWith r"
  with AwaitSlot show ?thesis by (cases p) simp_all
next
  case (AwaitDrain ms p)
  assume "doomed e ctl \<or> ctl = RejectedWith r"
  with AwaitDrain show ?thesis by (cases p) simp_all
qed simp_all

lemma react_rejects:
  assumes "ctl = AwaitSlot ms Pending index y rest \<or> ctl = AwaitDrain ms Pending"
    and "i \<in> set ms"
  shows "doomed e (react i (Rejects e) ctl)"
  using assms by (auto simp: settled_as_def)

lemma callback_control:
  assumes eh: "errorHandler (pool st) = JFunction f"
    and st: "step (HandlerSettles j) st = Some st'"
  shows "errorHandler (pool st') = JFunction f \<and>
         (control st' = control st \<or> (\<exists>s. control st' = react j s (control st)))"
proof -
  obtain x s where m: "map_of (reactions st) j = Some (x, s)"
    using st by (auto split: option.splits)
  let ?b = "st\<lparr>reactions := without j (reactions st)\<rparr>"
  have f: "errorHandler (pool ?b) = JFunction f" using eh by simp
  show ?thesis
  proof (cases s)
    case (Fulfils r)
    then have "st' = on_fulfilled j r ?b" using st m by simp
    then show ?thesis using eh by (simp add: on_fulfilled_def)
  next
    case (Rejects e)
    then have st': "st' = on_rejected j e x ?b" using st m by simp
    show ?thesis
      unfolding st' on_rejected_handled [OF f]
      using eh by (cases "f e x") (auto simp: settle_def)
  qed
qed

lemma settle_control:
  assumes st: "step (TaskSettles j) st = Some st'"
  shows "pool st' = pool st \<and> (\<exists>s. control st' = react j s (control st))"
  using st by (auto simp: settle_def split: option.splits)

lemma doomed_exec:
  assumes "errorHandler (pool st) = JFunction f"
    and "doomed e (control st) \<or> control st = RejectedWith (Escaped e)"
    and "exec evs st = Some st'"
  shows "if control st = RejectedWith (Escaped e) \<or> Resume \<in> set evs
         then control st' = RejectedWith (Escaped e)
         else doomed e (control st')"
  using assms
proof (induction evs arbitrary: st)
  case Nil
  then show ?case by auto
next
  case (Cons ev evs)
  from Cons.prems(3) obtain s where s: "step ev st = Some s" "exec evs s = Some st'"
    by (auto split: option.splits)
  show ?case
  proof (cases ev)
    case (HandlerSettles j)
    from callback_control [OF Cons.prems(1) s(1) [unfolded HandlerSettles]]
    have eh: "errorHandler (pool s) = JFunction f" and c: "control s = control st"
      using react_settled [OF Cons.prems(2)] by auto
    from Cons.IH [OF eh _ s(2)] Cons.prems(2) c show ?thesis
      by (simp add: HandlerSettles)
  next
    case (TaskSettles j)
    from settle_control [OF s(1) [unfolded TaskSettles]]
    have eh: "errorHandler (pool s) = JFunction f" and c: "control s = control st"
      using react_settled [OF Cons.prems(2)] Cons.prems(1) by auto
    from Cons.IH [OF eh _ s(2)] Cons.prems(2) c show ?thesis
      by (simp add: TaskSettles)
  next
    case Resume
    from s(1) have k: "continue (control st) st = Some s" by (simp add: Resume)
    have d: "doomed e (control st)"
      using Cons.prems(2) k by auto
    have "s = st\<lparr>control := RejectedWith (Escaped e)\<rparr>"
    proof (cases "control st")
      case (AwaitSlot ms p index x rest)
      with d k show ?thesis by (cases p) auto
    next
      case (AwaitDrain ms p)
      with d k show ?thesis by (cases p) auto
    qed (use d in simp_all)
    then have eh: "errorHandler (pool s) = JFunction f"
      and c: "control s = RejectedWith (Escaped e)"
      using Cons.prems(1) by simp_all
    from Cons.IH [OF eh _ s(2)] c show ?thesis
      by (simp add: Resume)
  qed
qed

lemma doomed_resume:
  assumes "doomed e (control st)"
  shows "\<exists>st'. step Resume st = Some st' \<and> control st' = RejectedWith (Escaped e)"
proof (cases "control st")
  case (AwaitSlot ms p index x rest)
  with assms show ?thesis by (cases p) auto
next
  case (AwaitDrain ms p)
  with assms show ?thesis by (cases p) auto
qed (use assms in simp_all)

text \<open>
  The paths on which the error does escape. In the run, the awaited promise is \<open>Pending\<close>
  as long as no member of \<open>Promise.race\<close> has settled, or no member of \<open>Promise.all\<close> has
  rejected and one has still to fulfil. When the task whose error handler raises (it
  throws in the \<open>catch\<close> callback, or the promise it returned rejects) is a member and
  settles then, \<open>start()\<close> never resolves, whatever happens next, and the next resumption
  of \<open>process\<close> rejects it with that error.
\<close>

theorem error_handler_error_escapes:
  assumes "errorHandler (pool st) = JFunction f"
    and "control st = AwaitSlot ms Pending index y rest \<or> control st = AwaitDrain ms Pending"
    and "i \<in> set ms"
    and "(ev = HandlerSettles i \<and>
           (\<exists>x e. map_of (reactions st) i = Some (x, Rejects e) \<and> f e x = Throws e')) \<or>
         (ev = TaskSettles i \<and> map_of (settling st) i = Some (Rejects e'))"
    and "exec (ev # evs) st = Some st'"
  shows "(\<forall>rv. control st' \<noteq> Resolved rv) \<and>
         (Resume \<in> set evs \<longrightarrow> control st' = RejectedWith (Escaped e')) \<and>
         (Resume \<notin> set evs \<longrightarrow>
            (\<exists>st''. step Resume st' = Some st'' \<and> control st'' = RejectedWith (Escaped e')))"
proof -
  from assms(5) obtain s where s: "step ev st = Some s" "exec evs s = Some st'"
    by (auto split: option.splits)
  have "errorHandler (pool s) = JFunction f \<and> control s = react i (Rejects e') (control st)"
    using assms(4)
  proof
    assume a: "ev = HandlerSettles i \<and>
      (\<exists>x e. map_of (reactions st) i = Some (x, Rejects e) \<and> f e x = Throws e')"
    then obtain x e where m: "map_of (reactions st) i = Some (x, Rejects e)"
      and t: "f e x = Throws e'" by blast
    let ?b = "st\<lparr>reactions := without i (reactions st)\<rparr>"
    have f: "errorHandler (pool ?b) = JFunction f" using assms(1) by simp
    have "s = on_rejected i e x ?b" using s(1) a m by simp
    then show ?thesis
      unfolding on_rejected_handled [OF f] using assms(1) t by (simp add: settle_def)
  next
    assume a: "ev = TaskSettles i \<and> map_of (settling st) i = Some (Rejects e')"
    then have "s = settle i (Rejects e') (st\<lparr>settling := without i (settling st)\<rparr>)"
      using s(1) by simp
    then show ?thesis using assms(1) by (simp add: settle_def)
  qed
  then have eh: "errorHandler (pool s) = JFunction f" and d: "doomed e' (control s)"
    using react_rejects [OF assms(2,3), of e'] by simp_all
  then have nr: "control s \<noteq> RejectedWith (Escaped e')" by auto
  from doomed_exec [OF eh _ s(2), of e'] d nr
  have D: "if Resume \<in> set evs then control st' = RejectedWith (Escaped e')
           else doomed e' (control st')" by simp
  have 1: "\<forall>rv. control st' \<noteq> Resolved rv"
    using D by (auto split: if_splits)
  have 2: "Resume \<in> set evs \<longrightarrow> control st' = RejectedWith (Escaped e')"
    using D by simp
  have 3: "Resume \<notin> set evs \<longrightarrow>
      (\<exists>st''. step Resume st' = Some st'' \<and> control st'' = RejectedWith (Escaped e'))"
    using D doomed_resume [of e' st'] by simp
  from 1 2 3 show ?thesis by blast
qed


lemma run_escaping:
  "errorHandler (pool (start (example_pool 1 [''b'', ''a''] (JFunction throwing))))
     = JFunction throwing \<and>
   control (start (example_pool 1 [''b'', ''a''] (JFunction throwing)))
     = AwaitSlot [0] Pending 1 ''a'' [] \<and>
   map_of (reactions (start (example_pool 1 [''b'', ''a''] (JFunction throwing)))) 0
     = Some (''b'', Rejects ''boom'') \<and>
   (\<exists>st'. exec [HandlerSettles 0, Resume]
             (start (example_pool 1 [''b'', ''a''] (JFunction throwing))) = Some st')"
  by (simp add: run_eval)

theorem error_handler_error_escapes_witness:
  "errorHandler (pool (start (example_pool 1 [''b'', ''a''] (JFunction throwing))))
     = JFunction throwing \<and>
   control (start (example_pool 1 [''b'', ''a''] (JFunction throwing)))
     = AwaitSlot [0] Pending 1 ''a'' [] \<and>
   map_of (reactions (start (example_pool 1 [''b'', ''a''] (JFunction throwing)))) 0
     = Some (''b'', Rejects ''boom'') \<and>
   throwing ''boom'' ''b'' = Throws ''rethrown boom'' \<and>
   (\<exists>st'. exec [HandlerSettles 0, Resume]
             (start (example_pool 1 [''b'', ''a''] (JFunction throwing))) = Some st' \<and>
          control st' = RejectedWith (Escaped ''rethrown boom''))"
proof -
  let ?st = "start (example_pool 1 [''b'', ''a''] (JFunction throwing))"
  from run_escaping obtain st' where
    eh: "errorHandler (pool ?st) = JFunction throwing"
    and c: "control ?st = AwaitSlot [0] Pending 1 ''a'' []"
    and m: "map_of (reactions ?st) 0 = Some (''b'', Rejects ''boom'')"
    and st': "exec [HandlerSettles 0, Resume] ?st = Some st'"
    by blast
  have t: "throwing ''boom'' ''b'' = Throws ''rethrown boom''"
    by (simp add: throwing_def)
  have aw: "control ?st = AwaitSlot [0] Pending 1 ''a'' [] \<or> control ?st = AwaitDrain [0] Pending"
    using c by simp
  have r: "(HandlerSettles 0 = HandlerSettles 0 \<and>
        (\<exists>x e. map_of (reactions ?st) 0 = Some (x, Rejects e) \<and>
               throwing e x = Throws ''rethrown boom'')) \<or>
      (HandlerSettles 0 = TaskSettles 0 \<and>
        map_of (settling ?st) 0 = Some (Rejects ''rethrown boom''))"
    using m t by blast
  from error_handler_error_escapes [OF eh aw _ r st']
  have "control st' = RejectedWith (Escaped ''rethrown boom'')" by simp
  with eh c m t st' show ?thesis by blast
qed

section \<open>Configuration errors\<close>

text \<open>
  An error handler set to \<open>0\<close> is set and not callable, yet \<open>validateInputs\<close> accepts the
  pool: the handler is called for both items and \<open>start()\<close> resolves, the failure of \<open>b\<close>
  collected as with no error handler.
\<close>

theorem falsy_error_handler_counterexample:
  "errorHandler (example_pool 10 [''a'', ''b''] (JNum (Finite 0))) = JNum (Finite 0) \<and>
   typeof (errorHandler (example_pool 10 [''a'', ''b''] (JNum (Finite 0)))) \<noteq> ''function'' \<and>
   validateInputs (example_pool 10 [''a'', ''b''] (JNum (Finite 0)))
     = Inr (example_pool 10 [''a'', ''b''] (JNum (Finite 0))) \<and>
   handlerCalls (start (example_pool 10 [''a'', ''b''] (JNum (Finite 0))))
     = [(''a'', 0), (''b'', 1)] \<and>
   map_option control
     (exec [HandlerSettles 0, HandlerSettles 1, TaskSettles 0, Resume]
        (start (example_pool 10 [''a'', ''b''] (JNum (Finite 0)))))
     = Some (Resolved (ReturnValue [''a''] [PoolError ''boom'' ''b'']))"
  by (simp add: run_eval)

text \<open>
  C6, amended. When the processing function is not callable, or the concurrency value is
  not a number that is 1 or more, or the items are not an array, or the error handler is
  truthy and not callable, \<open>validateInputs\<close> throws and \<open>start()\<close> is rejected with that
  configuration error; the processing function has not been called and never will be,
  since no event can happen in that run. In every other configuration, an error handler
  set to a falsy value (\<open>null\<close>, \<open>false\<close>, \<open>0\<close>, \<open>NaN\<close>, the empty string) included,
  \<open>validateInputs\<close> returns the executor as it is.
\<close>

theorem invalid_configuration_rejected:
  "((\<forall>f. handler ex \<noteq> JFunction f) \<or>
    (\<forall>c. concurrency ex = JNum c \<longrightarrow> \<not> num_ge c (Finite 1)) \<or>
    (\<forall>xs. items ex \<noteq> JArray xs) \<or>
    (truthy (errorHandler ex) \<and> (\<forall>eh. errorHandler ex \<noteq> JFunction eh))
    \<longrightarrow> (\<exists>err. validateInputs ex = Inl err \<and>
           control (start ex) = RejectedWith (ConfigError err) \<and>
           handlerCalls (start ex) = [] \<and>
           (\<forall>evs st. exec evs (start ex) = Some st \<longrightarrow>
              handlerCalls st = [] \<and> control st = RejectedWith (ConfigError err)))) \<and>
   (\<not> ((\<forall>f. handler ex \<noteq> JFunction f) \<or>
    (\<forall>c. concurrency ex = JNum c \<longrightarrow> \<not> num_ge c (Finite 1)) \<or>
    (\<forall>xs. items ex \<noteq> JArray xs) \<or>
    (truthy (errorHandler ex) \<and> (\<forall>eh. errorHandler ex \<noteq> JFunction eh)))
    \<longrightarrow> validateInputs ex = Inr ex)"
proof (intro conjI impI)
  assume bad: "(\<forall>f. handler ex \<noteq> JFunction f) \<or>
    (\<forall>c. concurrency ex = JNum c \<longrightarrow> \<not> num_ge c (Finite 1)) \<or>
    (\<forall>xs. items ex \<noteq> JArray xs) \<or>
    (truthy (errorHandler ex) \<and> (\<forall>eh. errorHandler ex \<noteq> JFunction eh))"
  have "validateInputs ex \<noteq> Inr ex"
    using bad validated_shape [of ex ex] by blast
  moreover have "validateInputs ex = Inr ex \<or> (\<exists>err. validateInputs ex = Inl err)"
    by (simp add: validateInputs_def)
  ultimately obtain err where err: "validateInputs ex = Inl err" by blast
  have s: "control (start ex) = RejectedWith (ConfigError err)" "handlerCalls (start ex) = []"
    using err by (simp_all add: start_def)
  have "\<forall>evs st. exec evs (start ex) = Some st \<longrightarrow>
      handlerCalls st = [] \<and> control st = RejectedWith (ConfigError err)"
    using exec_rejected_start [OF err] s by blast
  with err s show "\<exists>err. validateInputs ex = Inl err \<and>
           control (start ex) = RejectedWith (ConfigError err) \<and>
           handlerCalls (start ex) = [] \<and>
           (\<forall>evs st. exec evs (start ex) = Some st \<longrightarrow>
              handlerCalls st = [] \<and> control st = RejectedWith (ConfigError err))"
    by blast
next
  assume "\<not> ((\<forall>f. handler ex \<noteq> JFunction f) \<or>
    (\<forall>c. concurrency ex = JNum c \<longrightarrow> \<not> num_ge c (Finite 1)) \<or>
    (\<forall>xs. items ex \<noteq> JArray xs) \<or>
    (truthy (errorHandler ex) \<and> (\<forall>eh. errorHandler ex \<noteq> JFunction eh)))"
  then show "validateInputs ex = Inr ex"
    by (auto simp: validateInputs_def typeof_function isArray_iff number_one_or_up_iff)
qed

text \<open>
  On the items \<open>a\<close>, \<open>b\<close>, \<open>c\<close>: the concurrency 0 and -1, a processing function that is a
  string, items that are a string and an error handler that is a non-empty string are
  each refused with no call of the processing function, where the valid pool with
  concurrency 2 calls it for \<open>a\<close> and \<open>b\<close> before \<open>start\<close> first suspends.
\<close>

theorem invalid_configuration_rejected_witness:
  "control (start (example_pool 0 [''a'', ''b'', ''c''] JUndefined))
     = RejectedWith (ConfigError ConcurrencyInvalid) \<and>
   handlerCalls (start (example_pool 0 [''a'', ''b'', ''c''] JUndefined)) = [] \<and>
   control (start (example_pool (- 1) [''a'', ''b'', ''c''] JUndefined))
     = RejectedWith (ConfigError ConcurrencyInvalid) \<and>
   handlerCalls (start (example_pool (- 1) [''a'', ''b'', ''c''] JUndefined)) = [] \<and>
   control (start ((example_pool 2 [''a'', ''b'', ''c''] JUndefined)\<lparr>handler := JStr ''nope''\<rparr>))
     = RejectedWith (ConfigError HandlerNotFunction) \<and>
   control (start ((example_pool 2 [''a'', ''b'', ''c''] JUndefined)\<lparr>items := JStr ''abc''\<rparr>))
     = RejectedWith (ConfigError ItemsNotArray) \<and>
   handlerCalls (start ((example_pool 2 [''a'', ''b'', ''c''] JUndefined)\<lparr>items := JStr ''abc''\<rparr>))
     = [] \<and>
   control (start (example_pool 2 [''a'', ''b'', ''c''] (JStr ''handler'')))
     = RejectedWith (ConfigError ErrorHandlerNotFunction) \<and>
   handlerCalls (start (example_pool 2 [''a'', ''b'', ''c''] (JStr ''handler''))) = [] \<and>
   validateInputs (example_pool 2 [''a'', ''b'', ''c''] JUndefined)
     = Inr (example_pool 2 [''a'', ''b'', ''c''] JUndefined) \<and>
   handlerCalls (start (example_pool 2 [''a'', ''b'', ''c''] JUndefined))
     = [(''a'', 0), (''b'', 1)]"
proof -
  let ?zero = "example_pool 0 [''a'', ''b'', ''c''] JUndefined"
  let ?minus = "example_pool (- 1) [''a'', ''b'', ''c''] JUndefined"
  let ?nofun = "(example_pool 2 [''a'', ''b'', ''c''] JUndefined)\<lparr>handler := JStr ''nope''\<rparr>"
  let ?noarr = "(example_pool 2 [''a'', ''b'', ''c''] JUndefined)\<lparr>items := JStr ''abc''\<rparr>"
  let ?noeh = "example_pool 2 [''a'', ''b'', ''c''] (JStr ''handler'')"
  let ?good = "example_pool 2 [''a'', ''b'', ''c''] JUndefined"
  have v: "validateInputs ?zero = Inl ConcurrencyInvalid"
    "validateInputs ?minus = Inl ConcurrencyInvalid"
    "validateInputs ?nofun = Inl HandlerNotFunction"
    "validateInputs ?noarr = Inl ItemsNotArray"
    "validateInputs ?noeh = Inl ErrorHandlerNotFunction"
    by (simp_all add: validateInputs_def example_pool_fields)
  have bad: "\<forall>c. concurrency ?zero = JNum c \<longrightarrow> \<not> num_ge c (Finite 1)"
    "\<forall>c. concurrency ?minus = JNum c \<longrightarrow> \<not> num_ge c (Finite 1)"
    "\<forall>f. handler ?nofun \<noteq> JFunction f"
    "\<forall>xs. items ?noarr \<noteq> JArray xs"
    "truthy (errorHandler ?noeh) \<and> (\<forall>eh. errorHandler ?noeh \<noteq> JFunction eh)"
    by (simp_all add: example_pool_fields)
  have 1: "control (start ?zero) = RejectedWith (ConfigError ConcurrencyInvalid) \<and>
      handlerCalls (start ?zero) = []"
    using invalid_configuration_rejected [of ?zero] bad(1) v(1) by auto
  have 2: "control (start ?minus) = RejectedWith (ConfigError ConcurrencyInvalid) \<and>
      handlerCalls (start ?minus) = []"
    using invalid_configuration_rejected [of ?minus] bad(2) v(2) by auto
  have 3: "control (start ?nofun) = RejectedWith (ConfigError HandlerNotFunction)"
    using invalid_configuration_rejected [of ?nofun] bad(3) v(3) by auto
  have 4: "control (start ?noarr) = RejectedWith (ConfigError ItemsNotArray) \<and>
      handlerCalls (start ?noarr) = []"
    using invalid_configuration_rejected [of ?noarr] bad(4) v(4) by auto
  have 5: "control (start ?noeh) = RejectedWith (ConfigError ErrorHandlerNotFunction) \<and>
      handlerCalls (start ?noeh) = []"
    using invalid_configuration_rejected [of ?noeh] bad(5) v(5) by auto
  have 6: "validateInputs ?good = Inr ?good"
    using invalid_configuration_rejected [of ?good]
    by (simp add: example_pool_fields)
  have 7: "handlerCalls (start ?good) = [(''a'', 0), (''b'', 1)]"
    by (simp add: run_eval)
  from 1 2 3 4 5 6 7 show ?thesis by simp
qed

text \<open>
  The concurrency 1.5 is not a positive integer, and the default executor with that
  concurrency passes \<open>validateInputs\<close>.
\<close>

theorem fractional_concurrency_counterexample:
  "\<not> positive_integer (Finite (3/2)) \<and>
   validateInputs (withConcurrency (JNum (Finite (3/2))) (new_executor () :: (nat, unit, unit) executor))
     = Inr (withConcurrency (JNum (Finite (3/2))) (new_executor ()))"
proof -
  have "\<lfloor>3 / 2 :: rat\<rfloor> = 1" by (simp add: floor_eq_iff)
  then show ?thesis
    by (simp add: positive_integer_def withConcurrency_def new_executor_def validateInputs_def)
qed

text \<open>
  C7, amended. For every configuration whose concurrency limit is not a number that is 1
  or more (a value that is not a number, \<open>NaN\<close>, or a number below 1), validation fails
  with a configuration error. A concurrency limit that is a number 1 or more is never
  refused for it, whether or not it is an integer.
\<close>

theorem concurrency_check:
  "((\<forall>c. concurrency ex = JNum c \<longrightarrow> \<not> num_ge c (Finite 1))
      \<longrightarrow> (\<exists>err. validateInputs ex = Inl err)) \<and>
   ((\<exists>c. concurrency ex = JNum c \<and> num_ge c (Finite 1))
      \<longrightarrow> validateInputs ex \<noteq> Inl ConcurrencyInvalid)"
  by (auto simp: validateInputs_def typeof_number number_one_or_up_iff)

text \<open>
  On the items \<open>a\<close>, \<open>b\<close>, \<open>c\<close>: the concurrency 0.5 and \<open>NaN\<close> are refused, also when the
  processing function is not callable either; 1.5 and \<open>Infinity\<close> are not refused for
  their concurrency.
\<close>

theorem concurrency_check_witness:
  "validateInputs (example_pool (1/2) [''a'', ''b'', ''c''] JUndefined)
     = Inl ConcurrencyInvalid \<and>
   validateInputs ((example_pool 2 [''a'', ''b'', ''c''] JUndefined)\<lparr>concurrency := JNum NaN\<rparr>)
     = Inl ConcurrencyInvalid \<and>
   validateInputs ((example_pool 0 [''a'', ''b'', ''c''] JUndefined)\<lparr>handler := JStr ''nope''\<rparr>)
     = Inl HandlerNotFunction \<and>
   validateInputs (example_pool (3/2) [''a'', ''b'', ''c''] JUndefined)
     \<noteq> Inl ConcurrencyInvalid \<and>
   validateInputs ((example_pool 2 [''a'', ''b'', ''c''] JUndefined)\<lparr>concurrency := JNum PosInf\<rparr>)
     \<noteq> Inl ConcurrencyInvalid"
proof -
  let ?half = "example_pool (1/2) [''a'', ''b'', ''c''] JUndefined"
  let ?nan = "(example_pool 2 [''a'', ''b'', ''c''] JUndefined)\<lparr>concurrency := JNum NaN\<rparr>"
  let ?both = "(example_pool 0 [''a'', ''b'', ''c''] JUndefined)\<lparr>handler := JStr ''nope''\<rparr>"
  let ?frac = "example_pool (3/2) [''a'', ''b'', ''c''] JUndefined"
  let ?inf = "(example_pool 2 [''a'', ''b'', ''c''] JUndefined)\<lparr>concurrency := JNum PosInf\<rparr>"
  have bad: "\<forall>c. concurrency ?half = JNum c \<longrightarrow> \<not> num_ge c (Finite 1)"
    "\<forall>c. concurrency ?nan = JNum c \<longrightarrow> \<not> num_ge c (Finite 1)"
    "\<forall>c. concurrency ?both = JNum c \<longrightarrow> \<not> num_ge c (Finite 1)"
    by (simp_all add: example_pool_fields)
  have good: "\<exists>c. concurrency ?frac = JNum c \<and> num_ge c (Finite 1)"
    "\<exists>c. concurrency ?inf = JNum c \<and> num_ge c (Finite 1)"
    by (simp_all add: example_pool_fields)
  have 1: "validateInputs ?half = Inl ConcurrencyInvalid"
    using concurrency_check [of ?half] bad(1)
    by (auto simp: validateInputs_def example_pool_fields)
  have 2: "validateInputs ?nan = Inl ConcurrencyInvalid"
    using concurrency_check [of ?nan] bad(2)
    by (auto simp: validateInputs_def example_pool_fields)
  have 3: "validateInputs ?both = Inl HandlerNotFunction"
    using concurrency_check [of ?both] bad(3)
    by (auto simp: validateInputs_def example_pool_fields)
  have 4: "validateInputs ?frac \<noteq> Inl ConcurrencyInvalid"
    using concurrency_check [of ?frac] good(1) by blast
  have 5: "validateInputs ?inf \<noteq> Inl ConcurrencyInvalid"
    using concurrency_check [of ?inf] good(2) by blast
  from 1 2 3 4 5 show ?thesis by simp
qed

end
